theory Spec2Isabelle
  imports Complex_Main "HOL-Library.Log_Nat"
begin

section \<open>JavaScript numbers: IEEE-754 binary64 with round-to-nearest-even\<close>

text \<open>
  The backend computes with the TypeScript type \<open>number\<close> (a binary64 double) next to
  \<open>bigint\<close> (an unbounded integer, modelled as \<open>int\<close>).  A finite double is
  modelled by its exact rational value; every arithmetic operation computes the exact
  rational result and rounds it to the nearest double, ties to even, with gradual
  underflow below \<open>2 powi (- 1022)\<close> and overflow to an infinity from \<open>2 ^ 1024\<close> on.
\<close>

datatype number = Fin rat | NegZero | PosInf | NegInf | NaN

text \<open>\<open>rne\<close>: round to the nearest integer, a tie going to the even neighbour.\<close>

definition rne :: "rat \<Rightarrow> int" where
  "rne t = (let f = \<lfloor>t\<rfloor>; d = t - of_int f in
     if d < 1/2 then f else if 1/2 < d then f + 1 else if even f then f else f + 1)"

text \<open>\<open>ilog2 x\<close> is the binary exponent of a positive \<open>x\<close>: \<open>2 powi ilog2 x \<le> x < 2 powi (ilog2 x + 1)\<close>;
  \<open>fexp\<close> clamps it at the smallest normal exponent, so that subnormals share one spacing.\<close>

definition ilog2 :: "rat \<Rightarrow> int" where
  "ilog2 x = (if 1 \<le> x then bitlen \<lfloor>x\<rfloor> - 1 else - bitlen (\<lceil>1 / x\<rceil> - 1))"

definition fexp :: "rat \<Rightarrow> int" where
  "fexp x = max (ilog2 \<bar>x\<bar>) (- 1022)"

text \<open>\<open>round64 x\<close>: the nearest multiple of the spacing \<open>2 powi (fexp x - 52)\<close> (53 significant bits),
  without the overflow check, which \<open>js_round\<close> adds.\<close>

definition round64 :: "rat \<Rightarrow> rat" where
  "round64 x = (if x = 0 then 0 else
     let q = 2 powi (fexp x - 52) in of_int (rne (x / q)) * q)"

definition js_round :: "rat \<Rightarrow> number" where
  "js_round x = (let r = round64 x in
     if r = 0 then (if x < 0 then NegZero else Fin 0)
     else if 1024 \<le> ilog2 \<bar>r\<bar> then (if r < 0 then NegInf else PosInf)
     else Fin r)"

fun is_neg :: "number \<Rightarrow> bool" where
  "is_neg (Fin r) = (r < 0)"
| "is_neg NegZero = True"
| "is_neg NegInf = True"
| "is_neg PosInf = False"
| "is_neg NaN = False"

fun is_zero :: "number \<Rightarrow> bool" where
  "is_zero (Fin r) = (r = 0)"
| "is_zero NegZero = True"
| "is_zero PosInf = False"
| "is_zero NegInf = False"
| "is_zero NaN = False"

fun is_inf :: "number \<Rightarrow> bool" where
  "is_inf PosInf = True"
| "is_inf NegInf = True"
| "is_inf (Fin r) = False"
| "is_inf NegZero = False"
| "is_inf NaN = False"

fun val :: "number \<Rightarrow> rat" where
  "val (Fin r) = r"
| "val NegZero = 0"
| "val PosInf = 0"
| "val NegInf = 0"
| "val NaN = 0"

definition signed_zero :: "bool \<Rightarrow> number" where
  "signed_zero neg = (if neg then NegZero else Fin 0)"

definition signed_inf :: "bool \<Rightarrow> number" where
  "signed_inf neg = (if neg then NegInf else PosInf)"

text \<open>Unary minus and the four operations \<open>+ - * /\<close> of JavaScript on numbers.\<close>

fun js_neg :: "number \<Rightarrow> number" where
  "js_neg (Fin r) = (if r = 0 then NegZero else Fin (- r))"
| "js_neg NegZero = Fin 0"
| "js_neg PosInf = NegInf"
| "js_neg NegInf = PosInf"
| "js_neg NaN = NaN"

definition js_add :: "number \<Rightarrow> number \<Rightarrow> number" where
  "js_add a b =
     (if a = NaN \<or> b = NaN then NaN
      else if is_inf a \<and> is_inf b then (if a = b then a else NaN)
      else if is_inf a then a
      else if is_inf b then b
      else if a = NegZero \<and> b = NegZero then NegZero
      else if val a + val b = 0 then Fin 0
      else js_round (val a + val b))"

definition js_sub :: "number \<Rightarrow> number \<Rightarrow> number" where
  "js_sub a b = js_add a (js_neg b)"

definition js_mul :: "number \<Rightarrow> number \<Rightarrow> number" where
  "js_mul a b =
     (if a = NaN \<or> b = NaN then NaN
      else if is_inf a \<or> is_inf b then
        (if is_zero a \<or> is_zero b then NaN else signed_inf (is_neg a \<noteq> is_neg b))
      else if is_zero a \<or> is_zero b then signed_zero (is_neg a \<noteq> is_neg b)
      else js_round (val a * val b))"

definition js_div :: "number \<Rightarrow> number \<Rightarrow> number" where
  "js_div a b =
     (if a = NaN \<or> b = NaN then NaN
      else if is_inf a then (if is_inf b then NaN else signed_inf (is_neg a \<noteq> is_neg b))
      else if is_inf b then signed_zero (is_neg a \<noteq> is_neg b)
      else if is_zero b then (if is_zero a then NaN else signed_inf (is_neg a \<noteq> is_neg b))
      else if is_zero a then signed_zero (is_neg a \<noteq> is_neg b)
      else js_round (val a / val b))"

text \<open>Comparisons: every comparison with \<open>NaN\<close> is false, and \<open>-0\<close> equals \<open>+0\<close>.\<close>

definition js_lt :: "number \<Rightarrow> number \<Rightarrow> bool" where
  "js_lt a b =
     (if a = NaN \<or> b = NaN then False
      else if a = PosInf \<or> b = NegInf then False
      else if b = PosInf \<or> a = NegInf then True
      else val a < val b)"

definition js_le :: "number \<Rightarrow> number \<Rightarrow> bool" where
  "js_le a b = (a \<noteq> NaN \<and> b \<noteq> NaN \<and> \<not> js_lt b a)"

definition js_gt :: "number \<Rightarrow> number \<Rightarrow> bool" where
  "js_gt a b = js_lt b a"

text \<open>\<open>Math.floor\<close>, \<open>Number(bigint)\<close> and \<open>BigInt(number)\<close>; the last throws a
  \<open>RangeError\<close> on a number that is not an integer.\<close>

fun Math_floor :: "number \<Rightarrow> number" where
  "Math_floor (Fin r) = Fin (of_int \<lfloor>r\<rfloor>)"
| "Math_floor NegZero = NegZero"
| "Math_floor PosInf = PosInf"
| "Math_floor NegInf = NegInf"
| "Math_floor NaN = NaN"

definition Number_of :: "int \<Rightarrow> number" where
  "Number_of n = js_round (of_int n)"

datatype js_error = RangeError | Error string

fun BigInt_of :: "number \<Rightarrow> js_error + int" where
  "BigInt_of (Fin r) = (if r = of_int \<lfloor>r\<rfloor> then Inr \<lfloor>r\<rfloor> else Inl RangeError)"
| "BigInt_of NegZero = Inr 0"
| "BigInt_of PosInf = Inl RangeError"
| "BigInt_of NegInf = Inl RangeError"
| "BigInt_of NaN = Inl RangeError"

subsection \<open>Facts about rounding\<close>

lemma rne_of_int [simp]: "rne (of_int k) = k"
  by (simp add: rne_def)

lemma rne_floor_cases: "rne t = \<lfloor>t\<rfloor> \<or> rne t = \<lfloor>t\<rfloor> + 1"
  by (simp add: rne_def Let_def)

lemma rne_mono: "a \<le> b \<Longrightarrow> rne a \<le> rne b"
proof -
  assume ab: "a \<le> b"
  have fl: "\<lfloor>a\<rfloor> \<le> \<lfloor>b\<rfloor>" using ab by (rule floor_mono)
  show ?thesis
  proof (cases "\<lfloor>a\<rfloor> = \<lfloor>b\<rfloor>")
    case True
    then show ?thesis using ab by (auto simp: rne_def Let_def)
  next
    case False
    then have "\<lfloor>a\<rfloor> + 1 \<le> \<lfloor>b\<rfloor>" using fl by simp
    moreover have "rne a \<le> \<lfloor>a\<rfloor> + 1" using rne_floor_cases [of a] by auto
    moreover have "\<lfloor>b\<rfloor> \<le> rne b" using rne_floor_cases [of b] by auto
    ultimately show ?thesis by linarith
  qed
qed

lemma rne_err: "\<bar>of_int (rne t) - t\<bar> \<le> 1/2"
proof -
  have "of_int \<lfloor>t\<rfloor> \<le> t" "t < of_int \<lfloor>t\<rfloor> + 1" by linarith+
  then show ?thesis by (auto simp: rne_def Let_def abs_le_iff)
qed

lemma rne_minus: "rne (- t) = - rne t"
proof (cases "t = of_int \<lfloor>t\<rfloor>")
  case True
  then obtain k where "t = of_int k" ..
  then show ?thesis by (simp add: rne_def flip: of_int_minus)
next
  case False
  then have fm: "\<lfloor>- t\<rfloor> = - \<lfloor>t\<rfloor> - 1"
    by (simp add: floor_minus ceiling_altdef)
  show ?thesis
    unfolding rne_def Let_def fm by (auto simp: algebra_simps)
qed

lemma powi_nat: "0 \<le> k \<Longrightarrow> (2::rat) powi k = 2 ^ nat k"
  by (simp add: power_int_def)

lemma ilog2_bounds_ge1:
  assumes "1 \<le> (x::rat)"
  shows "2 powi (ilog2 x) \<le> x \<and> x < 2 powi (ilog2 x + 1)"
proof -
  define n where "n = \<lfloor>x\<rfloor>"
  have n1: "1 \<le> n" using assms unfolding n_def by linarith
  have bl: "2 ^ nat (bitlen n - 1) \<le> n \<and> n < 2 ^ nat (bitlen n)"
    using bitlen_bounds [of n] n1 by simp
  have bpos: "1 \<le> bitlen n" using n1 by (simp add: bitlen_def floorlog_def)
  have il: "ilog2 x = bitlen n - 1" using assms by (simp add: ilog2_def n_def)
  have "(2::rat) powi (bitlen n - 1) = of_int (2 ^ nat (bitlen n - 1))"
    using bpos by (simp add: powi_nat)
  also have "\<dots> \<le> of_int n" using bl by (simp only: of_int_le_iff)
  also have "\<dots> \<le> x" unfolding n_def by simp
  finally have lo: "2 powi (ilog2 x) \<le> x" by (simp add: il)
  have "x < of_int (n + 1)" unfolding n_def by linarith
  also have "\<dots> \<le> of_int (2 ^ nat (bitlen n))" using bl by (simp only: of_int_le_iff) simp
  also have "\<dots> = (2::rat) powi (bitlen n)" using bpos by (simp add: powi_nat)
  finally have hi: "x < 2 powi (ilog2 x + 1)" by (simp add: il)
  show ?thesis using lo hi by simp
qed

lemma ilog2_bounds_lt1:
  assumes "0 < (x::rat)" "x < 1"
  shows "2 powi (ilog2 x) \<le> x \<and> x < 2 powi (ilog2 x + 1)"
proof -
  define m where "m = \<lceil>1 / x\<rceil> - 1"
  have inv1: "1 < 1 / x" using assms by simp
  have m1: "1 \<le> m" using inv1 unfolding m_def by linarith
  have bl: "2 ^ nat (bitlen m - 1) \<le> m \<and> m < 2 ^ nat (bitlen m)"
    using bitlen_bounds [of m] m1 by simp
  have bpos: "1 \<le> bitlen m" using m1 by (simp add: bitlen_def floorlog_def)
  have il: "ilog2 x = - bitlen m" using assms by (simp add: ilog2_def m_def)
  have mlt: "of_int m < 1 / x" unfolding m_def by linarith
  have mge: "1 / x \<le> of_int (m + 1)" unfolding m_def by simp
  have "1 / x \<le> of_int (m + 1)" by (rule mge)
  also have "\<dots> \<le> of_int (2 ^ nat (bitlen m))" using bl by (simp only: of_int_le_iff) simp
  also have "\<dots> = (2::rat) powi (bitlen m)" using bpos by (simp add: powi_nat)
  finally have "1 / x \<le> 2 powi (bitlen m)" .
  then have "1 \<le> 2 powi (bitlen m) * x" using assms by (simp add: field_simps)
  then have lo: "2 powi (- bitlen m) \<le> x"
    by (simp add: power_int_minus field_simps)
  have "(2::rat) powi (bitlen m - 1) = of_int (2 ^ nat (bitlen m - 1))"
    using bpos by (simp add: powi_nat)
  also have "\<dots> \<le> of_int m" using bl by (simp only: of_int_le_iff)
  also have "\<dots> < 1 / x" by (rule mlt)
  finally have "2 powi (bitlen m - 1) * x < 1" using assms by (simp add: field_simps)
  then have hi: "x < 2 powi (- bitlen m + 1)"
    by (simp add: power_int_minus power_int_diff power_int_add field_simps)
  show ?thesis using lo hi by (simp add: il)
qed

lemma ilog2_bounds:
  assumes "0 < x"
  shows "2 powi (ilog2 x) \<le> x \<and> x < 2 powi (ilog2 x + 1)"
  using assms ilog2_bounds_ge1 [of x] ilog2_bounds_lt1 [of x] by (cases "1 \<le> x") auto

lemma powi_mono: "a \<le> b \<Longrightarrow> (2::rat) powi a \<le> 2 powi b"
  by (rule power_int_increasing) simp_all

lemma powi_less_imp: "(2::rat) powi a < 2 powi b \<Longrightarrow> a < b"
  using powi_mono [of b a] by (cases "a < b") auto

lemma ilog2_unique:
  assumes "2 powi e \<le> x" "x < 2 powi (e + 1)"
  shows "ilog2 x = e"
proof -
  have x0: "0 < x" using assms(1) by (smt (verit) zero_less_power_int zero_less_numeral order_less_le_trans)
  note b = ilog2_bounds [OF x0]
  have "2 powi e < (2::rat) powi (ilog2 x + 1)" using assms b by linarith
  then have 1: "e < ilog2 x + 1" by (rule powi_less_imp)
  have "2 powi (ilog2 x) < (2::rat) powi (e + 1)" using assms b by linarith
  then have 2: "ilog2 x < e + 1" by (rule powi_less_imp)
  show ?thesis using 1 2 by simp
qed

lemma ilog2_mono: "0 < x \<Longrightarrow> x \<le> y \<Longrightarrow> ilog2 x \<le> ilog2 y"
proof -
  assume x0: "0 < x" and xy: "x \<le> y"
  have "2 powi (ilog2 x) \<le> x" using ilog2_bounds [OF x0] by simp
  also have "\<dots> \<le> y" by (rule xy)
  also have "\<dots> < 2 powi (ilog2 y + 1)" using ilog2_bounds [of y] x0 xy by simp
  finally have "ilog2 x < ilog2 y + 1" by (rule powi_less_imp)
  then show ?thesis by simp
qed

lemma powi_pos: "0 < (2::rat) powi k"
  by (simp add: zero_less_power_int)

lemma fexp_minus [simp]: "fexp (- x) = fexp x"
  by (simp add: fexp_def)

lemma round64_0 [simp]: "round64 0 = 0"
  by (simp add: round64_def)

lemma round64_minus: "round64 (- x) = - round64 x"
  by (simp add: round64_def Let_def rne_minus)

lemma round64_err:
  assumes "x \<noteq> 0"
  shows "\<bar>round64 x - x\<bar> \<le> 2 powi (fexp x - 53)"
proof -
  define q :: rat where "q = 2 powi (fexp x - 52)"
  have q0: "0 < q" unfolding q_def by simp
  have r: "round64 x = of_int (rne (x / q)) * q"
    using assms by (simp add: round64_def q_def Let_def)
  have "round64 x - x = (of_int (rne (x / q)) - x / q) * q"
    using q0 by (simp add: r left_diff_distrib)
  then have "\<bar>round64 x - x\<bar> = \<bar>of_int (rne (x / q)) - x / q\<bar> * q"
    using q0 by (simp add: abs_mult)
  also have "\<dots> \<le> (1/2) * q"
    using rne_err [of "x / q"] q0 by (intro mult_right_mono) simp_all
  also have "\<dots> = 2 powi (fexp x - 53)"
    unfolding q_def by (simp add: power_int_diff)
  finally show ?thesis .
qed

lemma fexp_normal:
  assumes "2 powi (- 1022) \<le> \<bar>x\<bar>"
  shows "fexp x = ilog2 \<bar>x\<bar>"
proof -
  have x0: "0 < \<bar>x\<bar>" using assms powi_pos [of "- 1022"] by linarith
  have "2 powi (- 1022) < (2::rat) powi (ilog2 \<bar>x\<bar> + 1)"
    using assms ilog2_bounds [OF x0] by linarith
  then have "- 1022 < ilog2 \<bar>x\<bar> + 1" by (rule powi_less_imp)
  then show ?thesis by (simp add: fexp_def)
qed

lemma round64_rel_err:
  assumes "2 powi (- 1022) \<le> \<bar>x\<bar>"
  shows "\<bar>round64 x - x\<bar> \<le> \<bar>x\<bar> / 2 ^ 53"
proof -
  have x0: "0 < \<bar>x\<bar>" using assms powi_pos [of "- 1022"] by linarith
  then have xn: "x \<noteq> 0" by auto
  have "\<bar>round64 x - x\<bar> \<le> 2 powi (ilog2 \<bar>x\<bar> - 53)"
    using round64_err [OF xn] fexp_normal [OF assms] by simp
  also have "\<dots> = 2 powi (ilog2 \<bar>x\<bar>) / 2 ^ 53"
    by (simp add: power_int_diff)
  also have "\<dots> \<le> \<bar>x\<bar> / 2 ^ 53"
    using ilog2_bounds [OF x0] by (simp add: divide_right_mono)
  finally show ?thesis .
qed

lemma round64_grid:
  assumes "x \<noteq> 0" "x = of_int k * 2 powi j" "fexp x - 52 \<le> j"
  shows "round64 x = x"
proof -
  define d where "d = nat (j - (fexp x - 52))"
  define q :: rat where "q = 2 powi (fexp x - 52)"
  have q0: "0 < q" unfolding q_def by simp
  have j: "j = (fexp x - 52) + int d" using assms(3) by (simp add: d_def)
  have pj: "(2::rat) powi j = q * 2 ^ d"
    unfolding q_def by (subst j) (simp add: power_int_add)
  have xq: "x = of_int (k * 2 ^ d) * q" using assms(2) pj by simp
  have "x / q = of_int (k * 2 ^ d)" using q0 by (subst xq) simp
  then have "rne (x / q) = k * 2 ^ d" by (simp only: rne_of_int)
  then have "round64 x = of_int (k * 2 ^ d) * q"
    using assms(1) by (simp add: round64_def Let_def q_def)
  then show ?thesis using xq by simp
qed

lemma round64_exact_lt:
  assumes "\<bar>k\<bar> < 2 ^ 53" "- 1074 \<le> j"
  shows "round64 (of_int k * 2 powi j) = of_int k * 2 powi j"
proof (cases "k = 0")
  case True
  then show ?thesis by simp
next
  case False
  define x :: rat where "x = of_int k * 2 powi j"
  have xn: "x \<noteq> 0" using False by (simp add: x_def)
  have ax: "\<bar>x\<bar> = of_int \<bar>k\<bar> * 2 powi j" by (simp add: x_def abs_mult)
  have "of_int \<bar>k\<bar> < (2::rat) ^ 53" using assms(1) by (metis of_int_less_iff of_int_numeral of_int_power)
  then have "\<bar>x\<bar> < 2 ^ 53 * 2 powi j" unfolding ax by (simp add: mult_strict_right_mono)
  also have "\<dots> = 2 powi (53 + j)" by (simp add: power_int_add)
  finally have up: "\<bar>x\<bar> < 2 powi (53 + j)" .
  have x0: "0 < \<bar>x\<bar>" using xn by simp
  have "2 powi (ilog2 \<bar>x\<bar>) < (2::rat) powi (53 + j)"
    using ilog2_bounds [OF x0] up by linarith
  then have "ilog2 \<bar>x\<bar> < 53 + j" by (rule powi_less_imp)
  then have fj: "fexp x - 52 \<le> j" using assms(2) by (simp add: fexp_def)
  have "round64 x = x" by (rule round64_grid [OF xn _ fj, of k]) (simp add: x_def)
  then show ?thesis by (simp add: x_def)
qed

lemma round64_exact:
  assumes "\<bar>k\<bar> \<le> 2 ^ 53" "- 1074 \<le> j"
  shows "round64 (of_int k * 2 powi j) = of_int k * 2 powi j"
proof (cases "\<bar>k\<bar> = 2 ^ 53")
  case False
  then show ?thesis using assms round64_exact_lt [of k j] by simp
next
  case True
  then have k: "k = 2 ^ 53 \<or> k = - (2 ^ 53)" by linarith
  define h :: int where "h = k div 2"
  have h: "\<bar>h\<bar> < 2 ^ 53" "k = 2 * h" using k by (auto simp: h_def)
  have "of_int k * (2::rat) powi j = of_int h * 2 powi (j + 1)"
    by (simp add: h(2) power_int_add)
  then show ?thesis using round64_exact_lt [OF h(1), of "j + 1"] assms(2) by simp
qed

lemma round64_int: "\<bar>n\<bar> \<le> 2 ^ 53 \<Longrightarrow> round64 (of_int n) = of_int n"
  using round64_exact [of n 0] by simp

lemma round64_half_int: "\<bar>n\<bar> \<le> 2 ^ 53 \<Longrightarrow> round64 (of_int n / 2) = of_int n / 2"
  using round64_exact [of n "- 1"] by (simp add: power_int_minus field_simps)

lemma round64_upper:
  assumes "0 < x"
  shows "round64 x \<le> 2 powi (fexp x + 1)"
proof -
  define q :: rat where "q = 2 powi (fexp x - 52)"
  have q0: "0 < q" unfolding q_def by simp
  have r: "round64 x = of_int (rne (x / q)) * q"
    using assms by (simp add: round64_def q_def Let_def)
  have "x < 2 powi (ilog2 x + 1)" using ilog2_bounds [OF assms] by simp
  also have "\<dots> \<le> 2 powi (fexp x + 1)" using assms by (intro powi_mono) (simp add: fexp_def)
  also have "\<dots> = 2 ^ 53 * q" unfolding q_def by (simp add: power_int_diff power_int_add)
  finally have "x / q \<le> of_int (2 ^ 53)" using q0 by (simp add: field_simps)
  then have "rne (x / q) \<le> 2 ^ 53" using rne_mono [of "x / q" "of_int (2 ^ 53)"] by (simp only: rne_of_int)
  then have "of_int (rne (x / q)) \<le> (2::rat) ^ 53" by (metis of_int_le_iff of_int_numeral of_int_power)
  then have "round64 x \<le> 2 ^ 53 * q" unfolding r using q0 by (simp add: mult_right_mono)
  also have "\<dots> = 2 powi (fexp x + 1)" unfolding q_def by (simp add: power_int_diff power_int_add)
  finally show ?thesis .
qed

lemma round64_lower:
  assumes "0 < y" "fexp y = ilog2 y"
  shows "2 powi (fexp y) \<le> round64 y"
proof -
  define q :: rat where "q = 2 powi (fexp y - 52)"
  have q0: "0 < q" unfolding q_def by simp
  have r: "round64 y = of_int (rne (y / q)) * q"
    using assms(1) by (simp add: round64_def q_def Let_def)
  have pe: "(2::rat) powi (fexp y) = of_int (2 ^ 52) * q"
    unfolding q_def by (simp add: power_int_diff)
  have "2 powi (fexp y) \<le> y" using ilog2_bounds [OF assms(1)] assms(2) by simp
  then have "of_int (2 ^ 52) \<le> y / q" using q0 unfolding pe by (simp add: field_simps)
  then have "2 ^ 52 \<le> rne (y / q)" using rne_mono [of "of_int (2 ^ 52)" "y / q"] by (simp only: rne_of_int)
  then have "(of_int (2 ^ 52) :: rat) \<le> of_int (rne (y / q))" by (simp only: of_int_le_iff)
  then have "of_int (2 ^ 52) * q \<le> round64 y" unfolding r using q0 by (simp add: mult_right_mono)
  then show ?thesis using pe by simp
qed

lemma round64_mono_pos:
  assumes "0 < x" "x \<le> y"
  shows "round64 x \<le> round64 y"
proof -
  have y0: "0 < y" using assms by linarith
  have il: "ilog2 x \<le> ilog2 y" using assms by (rule ilog2_mono)
  then have fe: "fexp x \<le> fexp y" using assms y0 by (simp add: fexp_def)
  show ?thesis
  proof (cases "fexp x = fexp y")
    case True
    define q :: rat where "q = 2 powi (fexp y - 52)"
    have q0: "0 < q" unfolding q_def by simp
    have "x / q \<le> y / q" using assms q0 by (simp add: divide_right_mono)
    then have "rne (x / q) \<le> rne (y / q)" by (rule rne_mono)
    then have "(of_int (rne (x / q)) :: rat) \<le> of_int (rne (y / q))" by (simp only: of_int_le_iff)
    then have "of_int (rne (x / q)) * q \<le> of_int (rne (y / q)) * q" using q0 by (simp add: mult_right_mono)
    then show ?thesis using assms y0 True by (simp add: round64_def Let_def q_def)
  next
    case False
    then have lt: "fexp x + 1 \<le> fexp y" using fe by simp
    then have "- 1022 < fexp y" by (simp add: fexp_def)
    then have fy: "fexp y = ilog2 y" using y0 by (simp add: fexp_def split: if_splits)
    have "round64 x \<le> 2 powi (fexp x + 1)" using assms(1) by (rule round64_upper)
    also have "\<dots> \<le> 2 powi (fexp y)" using lt by (rule powi_mono)
    also have "\<dots> \<le> round64 y" using y0 fy by (rule round64_lower)
    finally show ?thesis .
  qed
qed

lemma round64_nonneg: "0 \<le> x \<Longrightarrow> 0 \<le> round64 x"
proof (cases "x = 0")
  case True
  then show ?thesis by simp
next
  case False
  assume "0 \<le> x"
  then have x0: "0 < x" using False by simp
  have "(0::rat) \<le> x / 2 powi (fexp x - 52)" using x0 by simp
  then have "rne 0 \<le> rne (x / 2 powi (fexp x - 52))" by (rule rne_mono)
  then have "0 \<le> rne (x / 2 powi (fexp x - 52))" by (simp add: rne_def)
  then show ?thesis using x0 by (simp add: round64_def Let_def)
qed

lemma round64_mono:
  assumes "x \<le> y"
  shows "round64 x \<le> round64 y"
proof -
  consider "0 < x" | "x \<le> 0" "0 \<le> y" | "y < 0" by linarith
  then show ?thesis
  proof cases
    case 1
    then show ?thesis using assms by (rule round64_mono_pos)
  next
    case 2
    have "round64 x \<le> 0" using round64_nonneg [of "- x"] 2(1) by (simp add: round64_minus)
    moreover have "0 \<le> round64 y" using 2(2) by (rule round64_nonneg)
    ultimately show ?thesis by linarith
  next
    case 3
    have "round64 (- y) \<le> round64 (- x)" using 3 assms by (intro round64_mono_pos) simp_all
    then show ?thesis by (simp add: round64_minus)
  qed
qed

lemma floor_round64_ge:
  assumes "\<bar>\<lfloor>y\<rfloor>\<bar> \<le> 2 ^ 53"
  shows "\<lfloor>y\<rfloor> \<le> \<lfloor>round64 y\<rfloor>"
proof -
  have "round64 (of_int \<lfloor>y\<rfloor>) \<le> round64 y" by (rule round64_mono) simp
  then have "of_int \<lfloor>y\<rfloor> \<le> round64 y" using round64_int [OF assms] by simp
  then show ?thesis by (simp add: le_floor_iff)
qed

lemma round64_le_int:
  assumes "y \<le> of_int n" "\<bar>n\<bar> \<le> 2 ^ 53"
  shows "round64 y \<le> of_int n"
  using round64_mono [OF assms(1)] round64_int [OF assms(2)] by simp

lemma round64_ge_int:
  assumes "of_int n \<le> y" "\<bar>n\<bar> \<le> 2 ^ 53"
  shows "of_int n \<le> round64 y"
  using round64_mono [OF assms(1)] round64_int [OF assms(2)] by simp

lemma round64_le_pow:
  assumes "x \<le> 2 powi e" "- 1074 \<le> e"
  shows "round64 x \<le> 2 powi e"
proof -
  have "round64 (of_int 1 * 2 powi e) = of_int 1 * 2 powi e"
    by (rule round64_exact) (use assms in simp_all)
  then show ?thesis using round64_mono [OF assms(1)] by simp
qed

lemma ilog2_less:
  assumes "0 < r" "r < 2 powi e"
  shows "ilog2 r < e"
proof -
  have "2 powi (ilog2 r) < (2::rat) powi e" using ilog2_bounds [OF assms(1)] assms(2) by linarith
  then show ?thesis by (rule powi_less_imp)
qed

lemma js_round_small:
  assumes "\<bar>round64 x\<bar> < 2 powi 1024"
  shows "js_round x = (if round64 x = 0 \<and> x < 0 then NegZero else Fin (round64 x))"
proof (cases "round64 x = 0")
  case True
  then show ?thesis by (simp add: js_round_def)
next
  case False
  then have "ilog2 \<bar>round64 x\<bar> < 1024" using assms by (intro ilog2_less) simp_all
  then show ?thesis using False by (simp add: js_round_def Let_def)
qed

lemma js_round_Fin:
  assumes "0 \<le> x" "x \<le> 2 powi 1023"
  shows "js_round x = Fin (round64 x)"
proof -
  have "round64 x \<le> 2 powi 1023" using assms(2) by (rule round64_le_pow) simp
  also have "\<dots> < 2 powi 1024" by (rule power_int_strict_increasing) simp_all
  finally have up: "round64 x < 2 powi 1024" .
  have lo: "0 \<le> round64 x" using assms(1) by (rule round64_nonneg)
  show ?thesis using up lo assms(1) js_round_small [of x] by simp
qed

lemma pow53_lt_powi: "(2::rat) ^ 53 < 2 powi 1024"
proof -
  have "(2::rat) ^ 53 = 2 powi 53" by (simp add: power_int_def)
  also have "\<dots> < 2 powi 1024" by (rule power_int_strict_increasing) simp_all
  finally show ?thesis .
qed

lemma Number_of_exact:
  assumes "\<bar>n\<bar> \<le> 2 ^ 53"
  shows "Number_of n = Fin (of_int n)"
proof -
  have r: "round64 (of_int n) = of_int n" using assms by (rule round64_int)
  have "\<bar>of_int n :: rat\<bar> \<le> 2 ^ 53" using assms by (simp flip: of_int_abs)
  then have "\<bar>round64 (of_int n)\<bar> < 2 powi 1024" using pow53_lt_powi unfolding r by linarith
  then show ?thesis using js_round_small [of "of_int n"] by (simp add: Number_of_def r)
qed

lemma Number_of_0 [simp]: "Number_of 0 = Fin 0"
  using Number_of_exact [of 0] by simp

lemma js_div_pos:
  assumes "0 < a" "0 < b" "a / b \<le> 2 powi 1023"
  shows "js_div (Fin a) (Fin b) = Fin (round64 (a / b))"
proof -
  have "js_round (a / b) = Fin (round64 (a / b))"
    using assms by (intro js_round_Fin) simp_all
  then show ?thesis using assms by (simp add: js_div_def)
qed

lemma pow53_le_powi: "(2::rat) ^ 53 \<le> 2 powi 1023"
proof -
  have "(2::rat) ^ 53 = 2 powi 53" by (simp add: power_int_def)
  also have "\<dots> \<le> 2 powi 1023" by (rule powi_mono) simp
  finally show ?thesis .
qed

lemma powi_m1022_le: "(2::rat) powi (- 1022) \<le> 1 / 2 ^ 53"
proof -
  have "(2::rat) powi (- 1022) \<le> 2 powi (- 53)" by (rule powi_mono) simp
  also have "\<dots> = 1 / 2 ^ 53" by (simp add: power_int_minus inverse_eq_divide)
  finally show ?thesis .
qed

section \<open>The exchange rate manager\<close>

text \<open>
  \<^verbatim>\<open>computeExchangeRate(totalXlmStaked: bigint, totalSxlmSupply: bigint): number\<close>
  of the exchange rate manager: \<open>1.0\<close> for an empty supply, else
  \<open>Number(totalXlmStaked) / Number(totalSxlmSupply)\<close>.
\<close>

definition computeExchangeRate :: "int \<Rightarrow> int \<Rightarrow> number" where
  "computeExchangeRate totalXlmStaked totalSxlmSupply =
     (if totalSxlmSupply = 0 then Fin 1
      else js_div (Number_of totalXlmStaked) (Number_of totalSxlmSupply))"

text \<open>
  The rate as invariant S1 of the specification words it: the quotient in
  \<open>10\<^sup>7\<close>-scaled integer division, and \<open>1 * 10\<^sup>7\<close> for an empty supply.
\<close>

definition RATE_PRECISION :: int where
  "RATE_PRECISION = 10000000"

definition spec_get_exchange_rate :: "int \<Rightarrow> int \<Rightarrow> int" where
  "spec_get_exchange_rate total_xlm_staked total_sxlm_supply =
     (if 0 < total_sxlm_supply then total_xlm_staked * RATE_PRECISION div total_sxlm_supply
      else 1 * RATE_PRECISION)"

text \<open>
  Claim C1 as stated fails: for an empty supply the function returns the unscaled
  \<open>1.0\<close>, not \<open>1 * 10\<^sup>7\<close>, and for a positive supply it returns the unscaled
  quotient (here \<open>3 / 2 = 1.5\<close>), not the \<open>10\<^sup>7\<close>-scaled integer quotient.
\<close>

theorem computeExchangeRate_scaled_counterexample:
  "computeExchangeRate 5 0 = Fin 1 \<and> spec_get_exchange_rate 5 0 = 10000000 \<and>
   computeExchangeRate 3 2 = Fin (3 / 2) \<and> spec_get_exchange_rate 3 2 = 15000000 \<and>
   computeExchangeRate 5 0 \<noteq> Fin (of_int (spec_get_exchange_rate 5 0)) \<and>
   computeExchangeRate 3 2 \<noteq> Fin (of_int (spec_get_exchange_rate 3 2))"
  by code_simp

text \<open>
  Claim C1, amended: for totals between \<open>0\<close> and \<open>2\<^sup>5\<^sup>3\<close>, \<open>computeExchangeRate\<close>
  returns a finite double \<open>q\<close>; for an empty supply \<open>q = 1\<close> (the unscaled 1:1 rate);
  for a positive supply \<open>q\<close> is the unscaled ratio staked / supply correctly rounded:
  within a relative error of \<open>2\<^sup>-\<^sup>5\<^sup>3\<close> of the exact ratio, and equal to it whenever the
  supply divides the staked total.
\<close>

theorem computeExchangeRate_unscaled:
  assumes "0 \<le> staked" "staked \<le> 2 ^ 53" "0 \<le> supply" "supply \<le> 2 ^ 53"
  shows "\<exists>q. computeExchangeRate staked supply = Fin q \<and>
           (if supply = 0 then q = 1
            else \<bar>q - of_int staked / of_int supply\<bar> \<le> (of_int staked / of_int supply) / 2 ^ 53 \<and>
                 (supply dvd staked \<longrightarrow> q = of_int (staked div supply)))"
proof (cases "supply = 0")
  case True
  then show ?thesis by (simp add: computeExchangeRate_def)
next
  case False
  then have sp: "0 < supply" using assms(3) by simp
  have na: "Number_of staked = Fin (of_int staked)" using assms by (intro Number_of_exact) simp
  have nb: "Number_of supply = Fin (of_int supply)" using assms by (intro Number_of_exact) simp
  show ?thesis
  proof (cases "staked = 0")
    case True
    have "computeExchangeRate 0 supply = Fin 0"
      using False sp by (simp add: computeExchangeRate_def nb js_div_def signed_zero_def)
    then show ?thesis using False True by simp
  next
    case st: False
    define a :: rat where "a = of_int staked"
    define b :: rat where "b = of_int supply"
    have a1: "1 \<le> a" using st assms(1) by (simp add: a_def)
    have b1: "1 \<le> b" using sp by (simp add: b_def)
    have bu: "b \<le> 2 ^ 53" using assms(4) by (simp add: b_def)
    have au: "a \<le> 2 ^ 53" using assms(2) by (simp add: a_def)
    have "1 / 2 ^ 53 \<le> 1 / b" using bu b1 by (intro divide_left_mono) simp_all
    also have "\<dots> \<le> a / b" using a1 b1 by (intro divide_right_mono) simp_all
    finally have xl: "1 / 2 ^ 53 \<le> a / b" .
    have "a / b \<le> a / 1" using a1 b1 by (intro divide_left_mono) simp_all
    then have xu: "a / b \<le> 2 ^ 53" using au by simp
    have x0: "0 < a / b" using a1 b1 by simp
    have nrm: "2 powi (- 1022) \<le> \<bar>a / b\<bar>"
      using powi_m1022_le xl x0 by linarith
    have big: "a / b \<le> 2 powi 1023" using xu pow53_le_powi by linarith
    have "js_div (Fin a) (Fin b) = Fin (round64 (a / b))"
      using a1 b1 big by (intro js_div_pos) simp_all
    then have ce: "computeExchangeRate staked supply = Fin (round64 (a / b))"
      using False by (simp add: computeExchangeRate_def na nb a_def b_def)
    have err: "\<bar>round64 (a / b) - a / b\<bar> \<le> (a / b) / 2 ^ 53"
      using round64_rel_err [OF nrm] x0 by simp
    have ex: "round64 (a / b) = of_int (staked div supply)" if d: "supply dvd staked"
    proof -
      obtain k where k: "staked = supply * k" using d by (elim dvdE)
      have xk: "a / b = of_int k" using sp by (simp add: a_def b_def k)
      have "(of_int k :: rat) \<le> 2 ^ 53" "(0::rat) < of_int k" using xk x0 xu by simp_all
      then have "\<bar>k\<bar> \<le> 2 ^ 53" by simp
      then have "round64 (of_int k) = of_int k" by (rule round64_int)
      then show ?thesis using sp by (simp add: xk k)
    qed
    show ?thesis using ce err ex False by (auto simp: a_def b_def)
  qed
qed

theorem computeExchangeRate_unscaled_witness:
  "\<exists>q. computeExchangeRate 10 4 = Fin q \<and> \<bar>q - 10 / 4\<bar> \<le> (10 / 4) / 2 ^ 53"
  using computeExchangeRate_unscaled [of 10 4] by simp

section \<open>The API gateway\<close>

text \<open>
  The routes answer with HTTP 400 and an error body, or with HTTP 200 and the unsigned
  transaction.  One constructor stands for each message the routes format; \<open>Thrown\<close>
  carries the message of an exception caught by the handler's outer \<open>catch\<close>
  (a failed schema parse, a \<open>RangeError\<close> of \<open>BigInt\<close>, a rejected address, an RPC
  failure).
\<close>

datatype gateway_error =
    Thrown string
  | MinimumStake
  | MaximumStake
  | SimulationFailed string
  | AmountMustBePositive
  | EntryArchived
  | InsufficientSxlmBalance int
  | WithdrawalFailed
  | InsufficientPoolLiquidity int

datatype reply = Reply400 gateway_error | Reply200 string


record amount_body =
  userAddress :: string
  amount :: number


text \<open>\<open>z.string().min(56).max(56)\<close> and \<open>z.number().positive()\<close>.\<close>

definition amountSchema_ok :: "'a amount_body_scheme \<Rightarrow> bool" where
  "amountSchema_ok body \<longleftrightarrow> length (userAddress body) = 56 \<and> js_gt (amount body) (Fin 0)"

text \<open>\<open>BigInt(Math.floor(body.amount * 1e7))\<close>.\<close>

definition toStroops :: "number \<Rightarrow> js_error + int" where
  "toStroops a = BigInt_of (Math_floor (js_mul a (Fin 10000000)))"

definition minStakeAmount :: int where
  "minStakeAmount = 10000000"

definition maxStakeAmount :: int where
  "maxStakeAmount = 100000000000000"

fun js_includes :: "string \<Rightarrow> string \<Rightarrow> bool" where
  "js_includes [] t = (t = [])"
| "js_includes (c # s) t = (take (length t) (c # s) = t \<or> js_includes s t)"

definition toLowerCase :: "string \<Rightarrow> string" where
  "toLowerCase s =
     map (\<lambda>c. let n = (of_char c :: nat) in if 65 \<le> n \<and> n \<le> 90 then char_of (n + 32) else c) s"


subsection \<open>The Stellar SDK and the RPC server\<close>

text \<open>
  The handlers reach the outside through the SDK and the RPC server, the environment of
  the model:
  \<^item> \<open>newAddress\<close> is \<open>new Address(s)\<close>, which throws (\<open>Inl\<close> the message) unless \<open>s\<close> is a
    valid account or contract strkey;
  \<^item> \<open>getAccount\<close> is \<open>server.getAccount\<close>, which may throw;
  \<^item> \<open>simulateView\<close> is \<open>server.simulateTransaction\<close> on a read-only call: an error,
    or a success that may ask for a restore of archived entries and may carry a
    return value;
  \<^item> \<open>buildTx\<close> is the rest of a handler that builds a transaction for the user:
    \<open>getAccount\<close> of the user, the simulation and the assembly.
\<close>

datatype sim_result = SimError string | SimSuccess bool "int option"

datatype build_result = BuildThrows string | SimulationError string | Prepared string

record sdk =
  newAddress :: "string \<Rightarrow> string + unit"

record stellar = sdk +
  getAccount :: "string \<Rightarrow> string + unit"
  simulateView :: "string \<Rightarrow> string \<Rightarrow> string list \<Rightarrow> sim_result"
  buildTx :: "string \<Rightarrow> string \<Rightarrow> string \<Rightarrow> int \<Rightarrow> build_result"



definition stakingContractId :: string where
  "stakingContractId = ''CBTSQ6AVMK63LXF3BA7WREUGXX2QYYQXKIO7KPZXCEAEAKRVWJS7J7K3''"






text \<open>
  An environment for the examples: the only address the SDK accepts is the account
  strkey of the all-zero public key, every RPC call succeeds, every view returns \<open>bal\<close>.
\<close>

definition demo_address :: string where
  "demo_address = ''GAAAAAAAAAAAAAAAAAAAAAAAAAAAAAAAAAAAAAAAAAAAAAAAAAAAAWHF''"

definition demo_env :: "int \<Rightarrow> stellar" where
  "demo_env bal =
     \<lparr>newAddress = (\<lambda>a. if a = demo_address then Inr () else Inl ''Unsupported address type''),
      getAccount = (\<lambda>a. Inr ()),
      simulateView = (\<lambda>c m args. SimSuccess False (Some bal)),
      buildTx = (\<lambda>c m u n. Prepared ''AAAA'')\<rparr>"

subsection \<open>POST /staking/stake\<close>

text \<open>The outer \<open>catch\<close> of the stake route rewrites one message.\<close>

definition stakeCatch :: "string \<Rightarrow> reply" where
  "stakeCatch rawMsg =
     Reply400 (Thrown (if js_includes (toLowerCase rawMsg) ''account not found''
                       then ''Your testnet account has no XLM. Please fund it via the Stellar Friendbot (https://friendbot.stellar.org/?addr=YOUR_ADDRESS) before staking.''
                       else rawMsg))"

text \<open>
  The handler: the schema parse, the conversion to stroops, the two bounds, then the
  deposit call, whose address argument is built before the transaction.
\<close>

definition stakeRoute :: "stellar \<Rightarrow> amount_body \<Rightarrow> reply" where
  "stakeRoute env body =
     (if \<not> amountSchema_ok body then stakeCatch ''ZodError''
      else case toStroops (amount body) of
        Inl e \<Rightarrow> stakeCatch ''RangeError''
      | Inr xlmStroops \<Rightarrow>
          if xlmStroops < minStakeAmount then Reply400 MinimumStake
          else if xlmStroops > maxStakeAmount then Reply400 MaximumStake
          else (case newAddress env (userAddress body) of
                  Inl msg \<Rightarrow> stakeCatch msg
                | Inr a \<Rightarrow>
                   (case buildTx env stakingContractId ''deposit'' (userAddress body) xlmStroops of
                      BuildThrows msg \<Rightarrow> stakeCatch msg
                    | SimulationError err \<Rightarrow> Reply400 (SimulationFailed err)
                    | Prepared xdr \<Rightarrow> Reply200 xdr)))"

lemma stakeCatch_neq [simp]:
  "stakeCatch m \<noteq> Reply400 MinimumStake" "stakeCatch m \<noteq> Reply400 MaximumStake"
  by (simp_all add: stakeCatch_def)

text \<open>
  Claim C4 as stated fails: it speaks of every stake request, and a request whose amount
  is \<open>0\<close> or \<open>-1\<close> asks for \<open>0\<close> or \<open>-10,000,000\<close> stroops, which is below \<open>MIN_STAKE\<close>,
  yet the answer is not the minimum-stake error: the schema parse throws first and the
  \<open>catch\<close> block answers with the message of that exception.
\<close>

theorem stake_min_bound_counterexample:
  "toStroops (Fin 0) = Inr 0 \<and> (0::int) < minStakeAmount \<and>
   stakeRoute (demo_env 0) \<lparr>userAddress = demo_address, amount = Fin 0\<rparr>
     = Reply400 (Thrown ''ZodError'') \<and>
   toStroops (Fin (- 1)) = Inr (- 10000000) \<and> (- 10000000::int) < minStakeAmount \<and>
   stakeRoute (demo_env 0) \<lparr>userAddress = demo_address, amount = Fin (- 1)\<rparr>
     = Reply400 (Thrown ''ZodError'')"
proof -
  have s0: "toStroops (Fin 0) = Inr 0" by code_simp
  have s1: "toStroops (Fin (- 1)) = Inr (- 10000000)" by code_simp
  have r0: "stakeRoute (demo_env 0) \<lparr>userAddress = demo_address, amount = Fin 0\<rparr>
     = Reply400 (Thrown ''ZodError'')"
    by (simp add: stakeRoute_def amountSchema_ok_def js_gt_def js_lt_def stakeCatch_def toLowerCase_def)
  have r1: "stakeRoute (demo_env 0) \<lparr>userAddress = demo_address, amount = Fin (- 1)\<rparr>
     = Reply400 (Thrown ''ZodError'')"
    by (simp add: stakeRoute_def amountSchema_ok_def js_gt_def js_lt_def stakeCatch_def toLowerCase_def)
  show ?thesis using s0 s1 r0 r1 by (simp add: minStakeAmount_def)
qed

text \<open>
  Claim C4, amended: the gateway answers a stake request with the minimum-stake error
  exactly when the request passes the schema (a \<open>userAddress\<close> of 56 characters and a
  positive \<open>amount\<close>), its amount converts to
  \<open>xlmStroops = BigInt(Math.floor(amount * 1e7))\<close>, and \<open>xlmStroops < 10,000,000\<close>
  (1 XLM).  So no request that fails the schema, or whose amount does not convert, gets
  the minimum-stake error, whatever its amount.
\<close>

theorem stake_min_bound:
  "(stakeRoute env body = Reply400 MinimumStake) =
     (amountSchema_ok body \<and> (\<exists>xlmStroops. toStroops (amount body) = Inr xlmStroops \<and> xlmStroops < 10000000))"
  by (auto simp: stakeRoute_def minStakeAmount_def maxStakeAmount_def
           split: sum.splits build_result.splits)

text \<open>
  The boundary: an amount of \<open>1\<close> XLM is \<open>10,000,000\<close> stroops and is built; the double
  \<open>0.9999999\<close> is \<open>9,999,999\<close> stroops and is rejected with the minimum-stake error.
\<close>

theorem stake_min_bound_witness:
  "toStroops (Fin 1) = Inr 10000000 \<and>
   stakeRoute (demo_env 0) \<lparr>userAddress = demo_address, amount = Fin 1\<rparr> = Reply200 ''AAAA'' \<and>
   toStroops (Fin (9007198354021067 / 9007199254740992)) = Inr 9999999 \<and>
   stakeRoute (demo_env 0)
      \<lparr>userAddress = demo_address, amount = Fin (9007198354021067 / 9007199254740992)\<rparr>
     = Reply400 MinimumStake"
proof -
  let ?b1 = "\<lparr>userAddress = demo_address, amount = Fin 1\<rparr>"
  let ?b2 = "\<lparr>userAddress = demo_address, amount = Fin (9007198354021067 / 9007199254740992)\<rparr>"
  have s1: "toStroops (Fin 1) = Inr 10000000" by code_simp
  have s2: "toStroops (Fin (9007198354021067 / 9007199254740992)) = Inr 9999999" by code_simp
  have ok1: "amountSchema_ok ?b1"
    by (simp add: amountSchema_ok_def js_gt_def js_lt_def demo_address_def)
  have ok2: "amountSchema_ok ?b2"
    by (simp add: amountSchema_ok_def js_gt_def js_lt_def demo_address_def)
  have r2: "stakeRoute (demo_env 0) ?b2 = Reply400 MinimumStake"
    using stake_min_bound [of "demo_env 0" ?b2] ok2 s2 by simp
  have "stakeRoute (demo_env 0) ?b1 \<noteq> Reply400 MinimumStake"
    using stake_min_bound [of "demo_env 0" ?b1] s1 by simp
  moreover have "stakeRoute (demo_env 0) ?b1 = Reply200 ''AAAA''"
    using ok1 s1 by (simp add: stakeRoute_def minStakeAmount_def maxStakeAmount_def demo_env_def)
  ultimately show ?thesis using s1 s2 r2 by simp
qed

subsection \<open>Read-only contract views\<close>



subsection \<open>POST /staking/unstake\<close>


subsection \<open>POST /lending/borrow\<close>






section \<open>The withdrawal queue processor\<close>

text \<open>
  A row of the \<open>withdrawals\<close> table (\<open>id\<close> is its primary key; times are milliseconds).
\<close>

record withdrawal =
  wid :: int
  wallet :: string
  wamount :: int
  status :: string
  unlockTime :: int
  createdAt :: int

text \<open>
  \<open>prisma.withdrawal.findMany\<close> of \<open>processQueue\<close>: the pending rows whose unlock time
  has passed, oldest first, at most 50.
\<close>

definition findReady :: "int \<Rightarrow> withdrawal list \<Rightarrow> withdrawal list" where
  "findReady now tbl =
     take 50 (sort_key createdAt (filter (\<lambda>w. status w = ''pending'' \<and> unlockTime w \<le> now) tbl))"

text \<open>\<open>prisma.withdrawal.update({ where: { id }, data: { status } })\<close>.\<close>

definition updateStatus :: "int \<Rightarrow> string \<Rightarrow> withdrawal list \<Rightarrow> withdrawal list" where
  "updateStatus i s tbl = map (\<lambda>w. if wid w = i then w\<lparr>status := s\<rparr> else w) tbl"

text \<open>
  The chain and the event bus are the environment of a cycle: \<open>getSourceAccount\<close>
  (the admin keypair and its account) may throw; \<open>sendClaim\<close> stands for building,
  preparing, signing, sending and polling the claim transaction, and returns its hash or
  throws; \<open>eventBus.publish\<close> returns or throws (it throws when the bus is not connected
  or Redis fails).
\<close>

record queue_env = sdk +
  getSourceAccount :: "string + unit"
  sendClaim :: "string \<Rightarrow> int \<Rightarrow> string + string"
  publish :: "int \<Rightarrow> string option"

text \<open>
  \<open>callClaimWithdrawal\<close> of the contract client: the address argument of
  \<open>claim_withdrawal\<close> is built before the transaction, so a wallet that is not a valid
  strkey throws before anything is sent.
\<close>

definition callClaimWithdrawal :: "queue_env \<Rightarrow> string \<Rightarrow> int \<Rightarrow> string + string" where
  "callClaimWithdrawal env userPublicKey withdrawalId =
     (case getSourceAccount env of
        Inl msg \<Rightarrow> Inl msg
      | Inr acct \<Rightarrow>
         (case newAddress env userPublicKey of
            Inl msg \<Rightarrow> Inl msg
          | Inr a \<Rightarrow> sendClaim env userPublicKey withdrawalId))"

text \<open>
  What a cycle does, in order: the status it writes to a row, the call of
  \<open>callClaimWithdrawal\<close>, the event it publishes.
\<close>

datatype queue_event = SetStatus int string | ClaimAttempt string int | WithdrawalReady int string

definition isPermanentFailure :: "string \<Rightarrow> bool" where
  "isPermanentFailure errorMessage \<longleftrightarrow>
     js_includes errorMessage ''already claimed'' \<or>
     js_includes errorMessage ''not found'' \<or>
     js_includes errorMessage ''insufficient''"

type_synonym queue_state = "withdrawal list \<times> queue_event list"

definition setStatus :: "int \<Rightarrow> string \<Rightarrow> queue_state \<Rightarrow> queue_state" where
  "setStatus i s st = (updateStatus i s (fst st), snd st @ [SetStatus i s])"

text \<open>The \<open>catch\<close> block of the loop body.\<close>

definition onFailure :: "int \<Rightarrow> string \<Rightarrow> queue_state \<Rightarrow> queue_state" where
  "onFailure i errorMessage st =
     setStatus i (if isPermanentFailure errorMessage then ''failed'' else ''pending'') st"

text \<open>
  One iteration of the \<open>for\<close> loop over the ready rows.  The \<open>try\<close> block covers the
  claim, the write of \<open>completed\<close> and the publication, so a failure of any of them
  reaches the \<open>catch\<close> block.
\<close>

definition processOne :: "queue_env \<Rightarrow> queue_state \<Rightarrow> withdrawal \<Rightarrow> queue_state" where
  "processOne env st w =
     (let st1 = setStatus (wid w) ''processing'' st;
          st2 = (fst st1, snd st1 @ [ClaimAttempt (wallet w) (wid w)])
      in case callClaimWithdrawal env (wallet w) (wid w) of
           Inl errorMessage \<Rightarrow> onFailure (wid w) errorMessage st2
         | Inr txHash \<Rightarrow>
             (let st3 = setStatus (wid w) ''completed'' st2
              in case publish env (wid w) of
                   Some errorMessage \<Rightarrow> onFailure (wid w) errorMessage st3
                 | None \<Rightarrow> (fst st3, snd st3 @ [WithdrawalReady (wid w) txHash])))"

definition processQueue :: "queue_env \<Rightarrow> int \<Rightarrow> withdrawal list \<Rightarrow> queue_state" where
  "processQueue env now tbl = foldl (processOne env) (tbl, []) (findReady now tbl)"

fun claimed_ids :: "queue_event list \<Rightarrow> int list" where
  "claimed_ids [] = []"
| "claimed_ids (ClaimAttempt wl i # es) = i # claimed_ids es"
| "claimed_ids (SetStatus i s # es) = claimed_ids es"
| "claimed_ids (WithdrawalReady i h # es) = claimed_ids es"

lemma claimed_ids_append [simp]: "claimed_ids (xs @ ys) = claimed_ids xs @ claimed_ids ys"
  by (induction xs rule: claimed_ids.induct) simp_all

lemma processOne_log:
  "claimed_ids (snd (processOne env st w)) = claimed_ids (snd st) @ [wid w]"
  by (simp add: processOne_def setStatus_def onFailure_def Let_def split: sum.splits option.splits)

lemma foldl_processOne_log:
  "claimed_ids (snd (foldl (processOne env) st ws)) = claimed_ids (snd st) @ map wid ws"
  by (induction ws arbitrary: st) (simp_all add: processOne_log)

lemma processQueue_claims: "claimed_ids (snd (processQueue env now tbl)) = map wid (findReady now tbl)"
  by (simp add: processQueue_def foldl_processOne_log)

lemma findReady_subset:
  "w \<in> set (findReady now tbl) \<Longrightarrow> w \<in> set tbl \<and> status w = ''pending'' \<and> unlockTime w \<le> now"
  by (auto simp: findReady_def dest!: in_set_takeD)

text \<open>
  Every claim a cycle attempts is for a row that was pending, with its unlock time
  passed, when the cycle started.
\<close>

lemma processQueue_only_ready:
  assumes "i \<in> set (claimed_ids (snd (processQueue env now tbl)))"
  shows "\<exists>w \<in> set tbl. wid w = i \<and> status w = ''pending'' \<and> unlockTime w \<le> now"
  using assms findReady_subset unfolding processQueue_claims by fastforce

lemma updateStatus_other: "r \<in> set tbl \<Longrightarrow> wid r \<noteq> i \<Longrightarrow> r \<in> set (updateStatus i s tbl)"
  by (force simp: updateStatus_def)

lemma processOne_other:
  assumes "r \<in> set (fst st)" "wid r \<noteq> wid w"
  shows "r \<in> set (fst (processOne env st w))"
  using assms
  by (auto simp: processOne_def setStatus_def onFailure_def Let_def updateStatus_other
           split: sum.splits option.splits)

lemma foldl_processOne_other:
  assumes "r \<in> set (fst st)" "wid r \<notin> wid ` set ws"
  shows "r \<in> set (fst (foldl (processOne env) st ws))"
  using assms by (induction ws arbitrary: st) (simp_all add: processOne_other)

text \<open>
  A row that is completed when a cycle starts is left as it is and is not claimed.
\<close>

lemma processQueue_completed_kept:
  assumes "distinct (map wid tbl)" "r \<in> set tbl" "status r = ''completed''"
  shows "r \<in> set (fst (processQueue env now tbl)) \<and>
         wid r \<notin> set (claimed_ids (snd (processQueue env now tbl)))"
proof -
  have "wid r \<notin> wid ` set (findReady now tbl)"
  proof
    assume "wid r \<in> wid ` set (findReady now tbl)"
    then obtain w where w: "w \<in> set (findReady now tbl)" "wid w = wid r" by auto
    then have "w \<in> set tbl" "status w = ''pending''" using findReady_subset by blast+
    moreover have "w = r" using assms(1,2) w(2) \<open>w \<in> set tbl\<close> by (meson distinct_map inj_onD)
    ultimately show False using assms(3) by simp
  qed
  then have "wid r \<notin> set (claimed_ids (snd (processQueue env now tbl)))"
    by (simp add: processQueue_claims)
  moreover have "r \<in> set (fst (processQueue env now tbl))"
    unfolding processQueue_def
    by (rule foldl_processOne_other) (use assms(2) \<open>wid r \<notin> wid ` set (findReady now tbl)\<close> in simp_all)
  ultimately show ?thesis by simp
qed

text \<open>
  The example: one row of a wallet with a valid account strkey, pending and unlocked;
  the chain accepts the claim; the event bus is not connected.
\<close>

definition demo_row :: withdrawal where
  "demo_row = \<lparr>wid = 1, wallet = ''GAAAAAAAAAAAAAAAAAAAAAAAAAAAAAAAAAAAAAAAAAAAAAAAAAAAAWHF'',
                wamount = 50, status = ''pending'', unlockTime = 100, createdAt = 10\<rparr>"

definition bus_down :: queue_env where
  "bus_down =
     \<lparr>newAddress = (\<lambda>a. if a = ''GAAAAAAAAAAAAAAAAAAAAAAAAAAAAAAAAAAAAAAAAAAAAAAAAAAAAWHF''
                          then Inr () else Inl ''Unsupported address type''),
      getSourceAccount = Inr (),
      sendClaim = (\<lambda>wl i. Inr ''tx1''),
      publish = (\<lambda>i. Some ''[EventBus] Not connected. Call connect() first.'')\<rparr>"

text \<open>
  Claim C7, the defect: a row is pending and unlocked, the on-chain claim succeeds and
  the publication of the event throws.  The cycle writes \<open>completed\<close> and then, in the
  \<open>catch\<close> block, \<open>pending\<close> again; the next cycle calls \<open>callClaimWithdrawal\<close> for the
  same row a second time.
\<close>

theorem processQueue_reclaims_completed:
  "processQueue bus_down 200 [demo_row] =
     ([demo_row],
      [SetStatus 1 ''processing'',
       ClaimAttempt ''GAAAAAAAAAAAAAAAAAAAAAAAAAAAAAAAAAAAAAAAAAAAAAAAAAAAAWHF'' 1,
       SetStatus 1 ''completed'', SetStatus 1 ''pending'']) \<and>
   callClaimWithdrawal bus_down ''GAAAAAAAAAAAAAAAAAAAAAAAAAAAAAAAAAAAAAAAAAAAAAAAAAAAAWHF'' 1
     = Inr ''tx1'' \<and>
   claimed_ids (snd (processQueue bus_down 230 (fst (processQueue bus_down 200 [demo_row])))) = [1]"
  by (simp add: processQueue_def findReady_def processOne_def setStatus_def onFailure_def
      updateStatus_def isPermanentFailure_def demo_row_def bus_down_def callClaimWithdrawal_def)

section \<open>The keeper bot\<close>






























lemma BigInt_floor [simp]: "BigInt_of (Math_floor (Fin q)) = Inr \<lfloor>q\<rfloor>"
  by simp

lemma js_mul_pos:
  assumes "0 < a" "0 < b" "a * b \<le> 2 powi 1023"
  shows "js_mul (Fin a) (Fin b) = Fin (round64 (a * b))"
proof -
  have "js_round (a * b) = Fin (round64 (a * b))"
    using assms by (intro js_round_Fin) simp_all
  then show ?thesis using assms by (simp add: js_mul_def)
qed

lemma round64_upper_rel:
  assumes "2 powi (- 1022) \<le> x"
  shows "round64 x \<le> x * (1 + 1 / 2 ^ 53)"
proof -
  have x0: "0 < x" using assms powi_pos [of "- 1022"] by linarith
  have "\<bar>round64 x - x\<bar> \<le> \<bar>x\<bar> / 2 ^ 53" using assms x0 by (intro round64_rel_err) simp
  then have "round64 x - x \<le> x / 2 ^ 53" using x0 by (simp only: abs_le_iff abs_of_pos, linarith?)
  then show ?thesis by (simp only: distrib_left mult_1_right times_divide_eq_right, linarith?)
qed

lemma round64_lower_rel:
  assumes "2 powi (- 1022) \<le> x"
  shows "x * (1 - 1 / 2 ^ 53) \<le> round64 x"
proof -
  have x0: "0 < x" using assms powi_pos [of "- 1022"] by linarith
  have "\<bar>round64 x - x\<bar> \<le> \<bar>x\<bar> / 2 ^ 53" using assms x0 by (intro round64_rel_err) simp
  then have "x - round64 x \<le> x / 2 ^ 53" using x0 by (simp only: abs_le_iff abs_of_pos, linarith?)
  then show ?thesis by (simp only: right_diff_distrib mult_1_right times_divide_eq_right, linarith?)
qed

lemma powi_m1022_le_half: "(2::rat) powi (- 1022) \<le> 1 / 2"
proof -
  have "(2::rat) powi (- 1022) \<le> 2 powi (- 1)" by (rule powi_mono) simp
  then show ?thesis by simp
qed

section \<open>The exchange rate manager: conversions\<close>

text \<open>
  \<open>xlmToSxlm\<close> and \<open>sxlmToXlm\<close> of the exchange rate manager: both throw on a rate
  that is not positive, and \<open>BigInt\<close> throws on a quotient or product that is not finite.
\<close>

definition xlmToSxlm :: "int \<Rightarrow> number \<Rightarrow> js_error + int" where
  "xlmToSxlm xlmStroops exchangeRate =
     (if js_le exchangeRate (Fin 0) then Inl (Error ''Invalid exchange rate'')
      else BigInt_of (Math_floor (js_div (Number_of xlmStroops) exchangeRate)))"

definition sxlmToXlm :: "int \<Rightarrow> number \<Rightarrow> js_error + int" where
  "sxlmToXlm sxlmStroops exchangeRate =
     (if js_le exchangeRate (Fin 0) then Inl (Error ''Invalid exchange rate'')
      else BigInt_of (Math_floor (js_mul (Number_of sxlmStroops) exchangeRate)))"

text \<open>
  Claim C3 as stated fails for a rate above 2: at a rate of \<open>4\<close>, \<open>7\<close> stroops of XLM
  become \<open>1\<close> stroop of sXLM, which converts back to \<open>4\<close> stroops: a loss of \<open>3\<close>.
\<close>

theorem round_trip_loss_counterexample:
  "xlmToSxlm 7 (Fin 4) = Inr 1 \<and> sxlmToXlm 1 (Fin 4) = Inr 4 \<and> (7::int) - 4 > 2"
  by code_simp

lemma xlmToSxlm_value:
  assumes "0 < x" "x < 2 ^ 52" "0 < r" "of_int x \<le> r * 2 ^ 53"
  shows "xlmToSxlm x (Fin r) = Inr \<lfloor>round64 (of_int x / r)\<rfloor>"
proof -
  have nx: "Number_of x = Fin (of_int x)" using assms by (intro Number_of_exact) simp
  have "of_int x / r \<le> 2 ^ 53" using assms by (simp add: field_simps)
  then have "of_int x / r \<le> 2 powi 1023" using pow53_le_powi by linarith
  then have "js_div (Fin (of_int x)) (Fin r) = Fin (round64 (of_int x / r))"
    using assms by (intro js_div_pos) simp_all
  then show ?thesis using assms(3) by (simp add: xlmToSxlm_def nx js_le_def js_lt_def)
qed

lemma floor_round64_le_pow53:
  assumes "0 \<le> y" "y \<le> 2 ^ 53"
  shows "0 \<le> \<lfloor>round64 y\<rfloor> \<and> \<lfloor>round64 y\<rfloor> \<le> 2 ^ 53 \<and> \<lfloor>y\<rfloor> \<le> \<lfloor>round64 y\<rfloor>"
proof -
  have "round64 y \<le> of_int (2 ^ 53)" using assms by (intro round64_le_int) simp_all
  then have 1: "\<lfloor>round64 y\<rfloor> \<le> 2 ^ 53" by (simp add: floor_le_iff)
  have 2: "0 \<le> \<lfloor>round64 y\<rfloor>" using round64_nonneg [OF assms(1)] by simp
  have "\<lfloor>y\<rfloor> \<le> 2 ^ 53" using assms(2) by (simp add: floor_le_iff)
  moreover have "0 \<le> \<lfloor>y\<rfloor>" using assms(1) by simp
  ultimately have "\<bar>\<lfloor>y\<rfloor>\<bar> \<le> 2 ^ 53" by simp
  then have 3: "\<lfloor>y\<rfloor> \<le> \<lfloor>round64 y\<rfloor>" by (rule floor_round64_ge)
  show ?thesis using 1 2 3 by simp
qed

lemma sxlmToXlm_zero: "0 < r \<Longrightarrow> sxlmToXlm 0 (Fin r) = Inr 0"
  by (simp add: sxlmToXlm_def js_le_def js_lt_def js_mul_def signed_zero_def)

lemma sxlmToXlm_value:
  assumes "0 < s" "s \<le> 2 ^ 53" "0 < r" "of_int s * r \<le> 2 ^ 53"
  shows "sxlmToXlm s (Fin r) = Inr \<lfloor>round64 (of_int s * r)\<rfloor>"
proof -
  have ns: "Number_of s = Fin (of_int s)" using assms by (intro Number_of_exact) simp
  have "of_int s * r \<le> 2 powi 1023" using assms(4) pow53_le_powi by linarith
  then have "js_mul (Fin (of_int s)) (Fin r) = Fin (round64 (of_int s * r))"
    using assms by (intro js_mul_pos) simp_all
  then show ?thesis using assms(3) by (simp add: sxlmToXlm_def ns js_le_def js_lt_def)
qed

text \<open>
  Claim C3, amended: for \<open>0 < x < 2\<^sup>5\<^sup>2\<close> stroops and a rate \<open>r > 0\<close> with
  \<open>x \<le> r * 2\<^sup>5\<^sup>3\<close>, both conversions return, the round trip never exceeds \<open>x\<close>, and the
  loss is below \<open>r + 1\<close> stroops: at most 2 stroops for \<open>r \<le> 2\<close>, at most 1 for \<open>r \<le> 1\<close>.
\<close>

theorem round_trip_loss:
  assumes "0 < x" "x < 2 ^ 52" "0 < r" "of_int x \<le> r * 2 ^ 53"
  shows "\<exists>s b. xlmToSxlm x (Fin r) = Inr s \<and> sxlmToXlm s (Fin r) = Inr b \<and>
           b \<le> x \<and> of_int (x - b) < r + 1 \<and>
           (r \<le> 2 \<longrightarrow> x - b \<le> 2) \<and> (r \<le> 1 \<longrightarrow> x - b \<le> 1)"
proof -
  define y :: rat where "y = of_int x / r"
  define s where "s = \<lfloor>round64 y\<rfloor>"
  have y0: "0 < y" using assms by (simp add: y_def)
  have yu: "y \<le> 2 ^ 53" using assms by (simp add: y_def field_simps)
  have xs: "xlmToSxlm x (Fin r) = Inr s"
    using assms by (simp add: xlmToSxlm_value s_def y_def)
  have sb: "0 \<le> s" "s \<le> 2 ^ 53" "\<lfloor>y\<rfloor> \<le> s"
    using floor_round64_le_pow53 [of y] y0 yu by (simp_all add: s_def)
  have yr: "y * r = of_int x" using assms(3) by (simp add: y_def)
  have low: "of_int x - r < of_int s * r"
  proof -
    have "y - 1 < of_int \<lfloor>y\<rfloor>" by linarith
    also have "\<dots> \<le> of_int s" using sb(3) by simp
    finally have "(y - 1) * r < of_int s * r" using assms(3) by (simp add: mult_strict_right_mono)
    then show ?thesis using yr by (simp add: left_diff_distrib)
  qed
  show ?thesis
  proof (cases "s = 0")
    case True
    have b0: "sxlmToXlm s (Fin r) = Inr 0" using assms(3) True by (simp add: sxlmToXlm_zero)
    have lt: "of_int x < r" using low True by simp
    then have "of_int (x - 0) < r + 1" by simp
    moreover have "r \<le> 2 \<longrightarrow> x - 0 \<le> 2"
    proof
      assume "r \<le> 2"
      then have "(of_int x :: rat) < of_int 2" using lt by simp
      then have "x < 2" by (simp only: of_int_less_iff)
      then show "x - 0 \<le> 2" by simp
    qed
    moreover have "r \<le> 1 \<longrightarrow> x - 0 \<le> 1"
    proof
      assume "r \<le> 1"
      then have "(of_int x :: rat) < of_int 1" using lt by simp
      then have "x < 1" by (simp only: of_int_less_iff)
      then show "x - 0 \<le> 1" by simp
    qed
    ultimately show ?thesis using xs b0 assms(1) by (intro exI [of _ s] exI [of _ 0]) simp
  next
    case False
    then have s1: "1 \<le> s" using sb(1) by simp
    then have "(1::rat) \<le> round64 y" unfolding s_def by (simp add: le_floor_iff)
    have yhalf: "1 / 2 < y"
    proof (rule ccontr)
      assume "\<not> 1 / 2 < y"
      then have "y \<le> of_int 1 / 2" by simp
      then have "round64 y \<le> round64 (of_int 1 / 2)" by (rule round64_mono)
      also have "\<dots> = of_int 1 / 2" by (rule round64_half_int) simp
      finally show False using \<open>1 \<le> round64 y\<close> by simp
    qed
    then have nrm: "2 powi (- 1022) \<le> y" using powi_m1022_le_half by linarith
    have "of_int s \<le> round64 y" unfolding s_def by simp
    also have "\<dots> \<le> y * (1 + 1 / 2 ^ 53)" using nrm by (rule round64_upper_rel)
    finally have "of_int s * r \<le> y * (1 + 1 / 2 ^ 53) * r"
      using assms(3) by (simp add: mult_right_mono)
    also have "\<dots> = of_int x + of_int x / 2 ^ 53" using yr by (simp add: algebra_simps)
    also have "\<dots> \<le> of_int x + 1 / 2"
    proof -
      have "(of_int x :: rat) \<le> 2 ^ 52" using assms(2) by simp
      then have "(of_int x :: rat) / 2 ^ 53 \<le> 2 ^ 52 / 2 ^ 53" by (rule divide_right_mono) simp
      then show ?thesis by simp
    qed
    finally have zu: "of_int s * r \<le> of_int x + 1 / 2" .
    define z :: rat where "z = of_int s * r"
    define b where "b = \<lfloor>round64 z\<rfloor>"
    have z0: "0 < z" using s1 assms(3) by (simp add: z_def)
    have "z \<le> of_int (2 * x + 1) / 2" using zu by (simp add: z_def field_simps)
    then have "round64 z \<le> round64 (of_int (2 * x + 1) / 2)" by (rule round64_mono)
    also have "\<dots> = of_int (2 * x + 1) / 2"
      using assms(1,2) by (intro round64_half_int) simp
    finally have "round64 z < of_int (x + 1)" by (simp add: field_simps)
    then have "b < x + 1" unfolding b_def by (simp only: floor_less_iff)
    then have bx: "b \<le> x" by simp
    have "(of_int x :: rat) + 1 / 2 \<le> 2 ^ 53" using assms(2)
    proof -
      have "(of_int x :: rat) \<le> 2 ^ 52" using assms(2) by simp
      then show ?thesis by simp
    qed
    then have zu53: "z \<le> 2 ^ 53" using zu by (simp add: z_def)
    have sx: "sxlmToXlm s (Fin r) = Inr b"
      using s1 sb(2) assms(3) zu53 by (simp add: sxlmToXlm_value b_def z_def)
    have "\<lfloor>z\<rfloor> \<le> b" using floor_round64_le_pow53 [of z] z0 zu53 by (simp add: b_def)
    then have "z - 1 < of_int b" by linarith
    then have loss: "of_int (x - b) < r + 1" using low by (simp add: z_def)
    have l2: "r \<le> 2 \<longrightarrow> x - b \<le> 2"
    proof
      assume "r \<le> 2"
      then have "(of_int (x - b) :: rat) < of_int 3" using loss by simp
      then have "x - b < 3" by (simp only: of_int_less_iff)
      then show "x - b \<le> 2" by simp
    qed
    have l1: "r \<le> 1 \<longrightarrow> x - b \<le> 1"
    proof
      assume "r \<le> 1"
      then have "(of_int (x - b) :: rat) < of_int 2" using loss by simp
      then have "x - b < 2" by (simp only: of_int_less_iff)
      then show "x - b \<le> 1" by simp
    qed
    show ?thesis using xs sx bx loss l2 l1 by blast
  qed
qed

text \<open>
  At the rate \<open>1.09\<close> (as a double), \<open>100\<close> XLM become \<open>917431192\<close> stroops of sXLM and
  convert back to \<open>999999999\<close> stroops.
\<close>

theorem round_trip_loss_witness:
  "(\<exists>s b. xlmToSxlm 1000000000 (Fin (4908923593833841 / 4503599627370496)) = Inr s \<and>
      sxlmToXlm s (Fin (4908923593833841 / 4503599627370496)) = Inr b \<and>
      b \<le> 1000000000 \<and> 1000000000 - b \<le> 2) \<and>
   xlmToSxlm 1000000000 (Fin (4908923593833841 / 4503599627370496)) = Inr 917431192 \<and>
   sxlmToXlm 917431192 (Fin (4908923593833841 / 4503599627370496)) = Inr 999999999"
proof -
  have "\<exists>s b. xlmToSxlm 1000000000 (Fin (4908923593833841 / 4503599627370496)) = Inr s \<and>
      sxlmToXlm s (Fin (4908923593833841 / 4503599627370496)) = Inr b \<and>
      b \<le> 1000000000 \<and> 1000000000 - b \<le> 2"
    using round_trip_loss [of 1000000000 "4908923593833841 / 4503599627370496"] by auto
  moreover have "xlmToSxlm 1000000000 (Fin (4908923593833841 / 4503599627370496)) = Inr 917431192"
    by code_simp
  moreover have "sxlmToXlm 917431192 (Fin (4908923593833841 / 4503599627370496)) = Inr 999999999"
    by code_simp
  ultimately show ?thesis by blast
qed

definition eps53 :: rat where
  "eps53 = 1 / 2 ^ 53"

lemma eps53_bounds: "0 < eps53" "eps53 < 1"
  by (simp_all add: eps53_def)



section \<open>GET /lending/position/:wallet\<close>



record position_reply =
  sxlmDeposited :: number
  sxlmDepositedRaw :: int
  xlmBorrowed :: number
  xlmBorrowedRaw :: int
  healthFactor :: number
  maxBorrow :: number
  collateralFactorBps :: number
  exchangeRate :: number








lemma le_powi_1023:
  assumes "x \<le> 2 ^ n" "n \<le> 1023"
  shows "x \<le> (2::rat) powi 1023"
proof -
  have "(2::rat) ^ n = 2 powi (int n)" by (simp add: power_int_def)
  also have "\<dots> \<le> 2 powi 1023" using assms(2) by (intro powi_mono) simp
  finally show ?thesis using assms(1) by linarith
qed


lemma js_mul_zero_left: "0 \<le> b \<Longrightarrow> js_mul (Fin 0) (Fin b) = Fin 0"
  by (simp add: js_mul_def signed_zero_def)

lemma js_mul_zero_right: "0 \<le> a \<Longrightarrow> js_mul (Fin a) (Fin 0) = Fin 0"
  by (simp add: js_mul_def signed_zero_def)

lemma js_div_zero_left: "0 < b \<Longrightarrow> js_div (Fin 0) (Fin b) = Fin 0"
  by (simp add: js_div_def signed_zero_def)





section \<open>The staking engine: slashing and the withdrawal queue\<close>

text \<open>
  \<open>recalculateWithdrawalQueueAfterSlash\<close> reads the totals after the slash from the
  chain, derives the reduction factor \<open>newER / oldER\<close> in doubles and rewrites the
  amount of every pending row of the mirror table.
\<close>

definition reductionFactor :: "int \<Rightarrow> int \<Rightarrow> int \<Rightarrow> number" where
  "reductionFactor totalStaked totalSupply slashAmount =
     js_div (js_div (Number_of totalStaked) (Number_of totalSupply))
            (js_div (Number_of (totalStaked + slashAmount)) (Number_of totalSupply))"

text \<open>\<open>BigInt(Math.floor(Number(w.amount) * reductionFactor))\<close>.\<close>

definition slashedAmount :: "number \<Rightarrow> int \<Rightarrow> js_error + int" where
  "slashedAmount factor a = BigInt_of (Math_floor (js_mul (Number_of a) factor))"

text \<open>\<open>prisma.withdrawal.update({ where: { id }, data: { amount } })\<close>.\<close>

definition updateAmount :: "int \<Rightarrow> int \<Rightarrow> withdrawal list \<Rightarrow> withdrawal list" where
  "updateAmount i a tbl = map (\<lambda>w. if wid w = i then w\<lparr>wamount := a\<rparr> else w) tbl"

text \<open>
  The loop over the pending rows read at the start; an exception of \<open>BigInt\<close> ends it
  and leaves the rows written so far.
\<close>

fun recalcLoop :: "number \<Rightarrow> withdrawal list \<Rightarrow> withdrawal list \<Rightarrow> withdrawal list \<times> js_error option" where
  "recalcLoop factor [] tbl = (tbl, None)"
| "recalcLoop factor (w # ws) tbl =
     (case slashedAmount factor (wamount w) of
        Inl e \<Rightarrow> (tbl, Some e)
      | Inr newAmount \<Rightarrow>
          recalcLoop factor ws
            (if newAmount \<noteq> wamount w then updateAmount (wid w) newAmount tbl else tbl))"

definition recalculateWithdrawalQueueAfterSlash ::
    "int \<Rightarrow> int \<Rightarrow> int \<Rightarrow> withdrawal list \<Rightarrow> withdrawal list \<times> js_error option" where
  "recalculateWithdrawalQueueAfterSlash totalStaked totalSupply slashAmount tbl =
     (if totalSupply = 0 then (tbl, None)
      else if js_le (js_div (Number_of (totalStaked + slashAmount)) (Number_of totalSupply)) (Fin 0)
      then (tbl, None)
      else recalcLoop (reductionFactor totalStaked totalSupply slashAmount)
             (filter (\<lambda>w. status w = ''pending'') tbl) tbl)"

definition pending_row :: "int \<Rightarrow> int \<Rightarrow> withdrawal" where
  "pending_row i a = \<lparr>wid = i, wallet = ''GA'', wamount = a, status = ''pending'',
                       unlockTime = 100, createdAt = 10\<rparr>"

text \<open>
  Claim C2 as stated fails twice.  With an empty sXLM supply the operation returns at
  its first guard and the pending amount \<open>10\<close> stays, where the claim asks for
  \<open>\<lfloor>10 * 0 / 5\<rfloor> = 0\<close>.  And the factor is a double: after a slash of 400 XLM that
  leaves 100 XLM staked (supply 300 sXLM) it is \<open>0.19999999999999998\<close>, so a pending
  amount of \<open>10,000,000\<close> stroops becomes \<open>1,999,999\<close>, not
  \<open>\<lfloor>10,000,000 * 1 / 5\<rfloor> = 2,000,000\<close>.
\<close>

theorem slash_recalculation_counterexample:
  "recalculateWithdrawalQueueAfterSlash 0 0 5 [pending_row 1 10] = ([pending_row 1 10], None) \<and>
   (10::int) * 0 div (0 + 5) = 0 \<and>
   recalculateWithdrawalQueueAfterSlash 1000000000 3000000000 4000000000 [pending_row 1 10000000]
     = ([pending_row 1 1999999], None) \<and>
   (10000000::int) * 1000000000 div (1000000000 + 4000000000) = 2000000"
  by code_simp

lemma eps53_cube_upper: "(1 + eps53) ^ 3 \<le> (1 + 5 * eps53) * (1 - eps53)"
  by (simp add: eps53_def power3_eq_cube field_simps)

lemma eps53_cube_lower: "(1 - 5 * eps53) * (1 + eps53) \<le> (1 - eps53) ^ 3"
  by (simp add: eps53_def power3_eq_cube field_simps)

lemma eps53_small: "5 * eps53 * 2 ^ 49 \<le> 5 / 16"
  by (simp add: eps53_def)

lemma js_div_rel_gen:
  assumes "0 < a" "0 < b" "2 powi (- 1022) \<le> a / b" "a / b \<le> 2 powi 1023"
  shows "\<exists>p. js_div (Fin a) (Fin b) = Fin p \<and> p = round64 (a / b) \<and>
           a / b * (1 - eps53) \<le> p \<and> p \<le> a / b * (1 + eps53)"
proof -
  have d: "js_div (Fin a) (Fin b) = Fin (round64 (a / b))"
    using assms by (intro js_div_pos) simp_all
  show ?thesis
    using d round64_upper_rel [OF assms(3)] round64_lower_rel [OF assms(3)]
    by (simp add: eps53_def)
qed

lemma js_mul_rel_gen:
  assumes "0 < a" "0 < b" "2 powi (- 1022) \<le> a * b" "a * b \<le> 2 powi 1023"
  shows "\<exists>p. js_mul (Fin a) (Fin b) = Fin p \<and> p = round64 (a * b) \<and>
           a * b * (1 - eps53) \<le> p \<and> p \<le> a * b * (1 + eps53)"
proof -
  have d: "js_mul (Fin a) (Fin b) = Fin (round64 (a * b))"
    using assms by (intro js_mul_pos) simp_all
  show ?thesis
    using d round64_upper_rel [OF assms(3)] round64_lower_rel [OF assms(3)]
    by (simp add: eps53_def)
qed

lemma ge_powi_m1022:
  assumes "1 / 2 ^ n \<le> x" "n \<le> 1022"
  shows "(2::rat) powi (- 1022) \<le> x"
proof -
  have "(2::rat) powi (- 1022) \<le> 2 powi (- int n)" using assms(2) by (intro powi_mono) simp
  also have "\<dots> = 1 / 2 ^ n" by (simp add: power_int_minus inverse_eq_divide)
  finally show ?thesis using assms(1) by linarith
qed

lemma ratio_ge:
  assumes "1 \<le> (a::rat)" "0 < b" "b \<le> 2 ^ n"
  shows "1 / 2 ^ n \<le> a / b"
proof -
  have "1 / 2 ^ n \<le> 1 / b" using assms(2,3) by (intro divide_left_mono) simp_all
  also have "\<dots> \<le> a / b" using assms(1,2) by (intro divide_right_mono) simp_all
  finally show ?thesis .
qed

lemma ratio_le:
  assumes "0 \<le> (a::rat)" "a \<le> 2 ^ n" "1 \<le> b"
  shows "a / b \<le> 2 ^ n"
proof -
  have "a / b \<le> a / 1" using assms(1,3) by (intro divide_left_mono) simp_all
  then show ?thesis using assms(2) by simp
qed

lemma rates_after_slash:
  assumes "1 \<le> T" "0 < S" "T + S \<le> 2 ^ 53" "1 \<le> P" "P \<le> 2 ^ 53"
  shows "\<exists>n1 n2. js_div (Number_of T) (Number_of P) = Fin n1 \<and>
           js_div (Number_of (T + S)) (Number_of P) = Fin n2 \<and>
           n1 \<le> n2 \<and> 1 / 2 ^ 54 \<le> n1 \<and> n2 \<le> 2 ^ 54 \<and>
           of_int T / of_int P * (1 - eps53) \<le> n1 \<and> n1 \<le> of_int T / of_int P * (1 + eps53) \<and>
           of_int (T + S) / of_int P * (1 - eps53) \<le> n2 \<and>
           n2 \<le> of_int (T + S) / of_int P * (1 + eps53)"
proof -
  define t p ts :: rat where "t = of_int T" and "p = of_int P" and "ts = of_int (T + S)"
  have n: "Number_of T = Fin t" "Number_of P = Fin p" "Number_of (T + S) = Fin ts"
    using assms by (simp_all add: Number_of_exact t_def p_def ts_def)
  have r: "1 \<le> t" "t \<le> 2 ^ 53" "1 \<le> p" "p \<le> 2 ^ 53" "1 \<le> ts" "ts \<le> 2 ^ 53" "t \<le> ts"
    using assms by (simp_all add: t_def p_def ts_def)
  have p0: "0 < p" "0 \<le> t" "0 \<le> ts" using r by simp_all
  have x1: "1 / 2 ^ 53 \<le> t / p" "t / p \<le> 2 ^ 53"
    by (rule ratio_ge [OF r(1) p0(1) r(4)], rule ratio_le [OF p0(2) r(2) r(3)])
  have x2: "1 / 2 ^ 53 \<le> ts / p" "ts / p \<le> 2 ^ 53"
    by (rule ratio_ge [OF r(5) p0(1) r(4)], rule ratio_le [OF p0(3) r(6) r(3)])
  have "2 powi (- 1022) \<le> t / p" using x1(1) by (rule ge_powi_m1022) simp
  moreover have "t / p \<le> 2 powi 1023" using x1(2) by (rule le_powi_1023) simp
  ultimately obtain n1 where n1: "js_div (Fin t) (Fin p) = Fin n1" "n1 = round64 (t / p)"
      "t / p * (1 - eps53) \<le> n1" "n1 \<le> t / p * (1 + eps53)"
    using js_div_rel_gen [of t p] r by auto
  have "2 powi (- 1022) \<le> ts / p" using x2(1) by (rule ge_powi_m1022) simp
  moreover have "ts / p \<le> 2 powi 1023" using x2(2) by (rule le_powi_1023) simp
  ultimately obtain n2 where n2: "js_div (Fin ts) (Fin p) = Fin n2" "n2 = round64 (ts / p)"
      "ts / p * (1 - eps53) \<le> n2" "n2 \<le> ts / p * (1 + eps53)"
    using js_div_rel_gen [of ts p] r by auto
  have "t / p \<le> ts / p" using r by (intro divide_right_mono) simp_all
  then have le: "n1 \<le> n2" unfolding n1(2) n2(2) by (rule round64_mono)
  have "round64 (1 / 2 ^ 53) \<le> round64 (t / p)" using x1(1) by (rule round64_mono)
  moreover have "round64 (of_int 1 * 2 powi (- 53)) = of_int 1 * 2 powi (- 53)"
    by (rule round64_exact) simp_all
  ultimately have "1 / 2 ^ 53 \<le> n1"
    by (simp add: n1(2) power_int_minus inverse_eq_divide)
  then have lo: "1 / 2 ^ 54 \<le> n1" by simp
  have "round64 (ts / p) \<le> round64 (of_int (2 ^ 53))" using x2(2) by (intro round64_mono) simp
  also have "\<dots> = of_int (2 ^ 53)" by (rule round64_int) simp
  finally have hi: "n2 \<le> 2 ^ 54" by (simp add: n2(2))
  show ?thesis
    using n1(1,3,4) n2(1,3,4) le lo hi unfolding n t_def p_def ts_def by blast
qed

lemma cancel_frac: "c \<noteq> 0 \<Longrightarrow> a * k / (b * c) * k * c = a / b * k ^ 2" for a b c k :: rat
  by (simp add: power2_eq_square)

lemma reductionFactor_bounds:
  assumes "1 \<le> T" "0 < S" "T + S \<le> 2 ^ 53" "1 \<le> P" "P \<le> 2 ^ 53"
  shows "\<exists>f. reductionFactor T P S = Fin f \<and> 1 / 2 ^ 109 \<le> f \<and> f \<le> 1 \<and>
           f * (1 - eps53) \<le> of_int T / of_int (T + S) * (1 + eps53) ^ 2 \<and>
           of_int T / of_int (T + S) * (1 - eps53) ^ 2 \<le> f * (1 + eps53)"
proof -
  define x1 x2 :: rat where "x1 = of_int T / of_int P" and "x2 = of_int (T + S) / of_int P"
  obtain n1 n2 where n: "js_div (Number_of T) (Number_of P) = Fin n1"
      "js_div (Number_of (T + S)) (Number_of P) = Fin n2"
      "n1 \<le> n2" "1 / 2 ^ 54 \<le> n1" "n2 \<le> 2 ^ 54"
      "x1 * (1 - eps53) \<le> n1" "n1 \<le> x1 * (1 + eps53)"
      "x2 * (1 - eps53) \<le> n2" "n2 \<le> x2 * (1 + eps53)"
    using rates_after_slash [OF assms] unfolding x1_def x2_def by blast
  have e: "0 < 1 - eps53" "0 < 1 + eps53" using eps53_bounds by simp_all
  have pos: "0 < x1" "0 < x2" using assms by (simp_all add: x1_def x2_def)
  have rho: "x1 / x2 = of_int T / of_int (T + S)" using assms by (simp add: x1_def x2_def)
  have "(0::rat) < 1 / 2 ^ 54" by simp
  then have n1p: "0 < n1" using n(4) by linarith
  have n2p: "0 < n2" using n1p n(3) by linarith
  have q1: "1 / 2 ^ 108 \<le> n1 / n2"
  proof -
    have "(1 / 2 ^ 54) / 2 ^ 54 \<le> n1 / n2"
    proof (rule frac_le)
      show "0 \<le> n1" using n1p by simp
      show "1 / 2 ^ 54 \<le> n1" by (rule n(4))
      show "0 < n2" by (rule n2p)
      show "n2 \<le> 2 ^ 54" by (rule n(5))
    qed
    then show ?thesis by simp
  qed
  have q2: "n1 / n2 \<le> 1" using n(3) n2p by simp
  have "2 powi (- 1022) \<le> n1 / n2" using q1 by (rule ge_powi_m1022) simp
  moreover have "n1 / n2 \<le> 2 powi 1023"
  proof (rule le_powi_1023)
    show "n1 / n2 \<le> 2 ^ 0" using q2 by simp
  qed simp
  ultimately obtain f where f: "js_div (Fin n1) (Fin n2) = Fin f" "f = round64 (n1 / n2)"
      "n1 / n2 * (1 - eps53) \<le> f" "f \<le> n1 / n2 * (1 + eps53)"
    using js_div_rel_gen [of n1 n2] n1p n2p by auto
  have "round64 (n1 / n2) \<le> round64 (of_int 1)" using q2 by (intro round64_mono) simp
  then have f1: "f \<le> 1" using round64_int [of 1] by (simp add: f(2))
  have "1 / 2 ^ 108 * (1 - eps53) \<le> n1 / n2 * (1 - eps53)"
    using q1 e by (intro mult_right_mono) simp_all
  moreover have "(1::rat) / 2 ^ 109 \<le> 1 / 2 ^ 108 * (1 - eps53)" by (simp add: eps53_def)
  ultimately have f0: "1 / 2 ^ 109 \<le> f" using f(3) by linarith
  have up: "n1 / n2 \<le> x1 * (1 + eps53) / (x2 * (1 - eps53))"
  proof (rule frac_le)
    show "0 \<le> x1 * (1 + eps53)" using pos e by simp
    show "n1 \<le> x1 * (1 + eps53)" by (rule n(7))
    show "0 < x2 * (1 - eps53)" using pos e by simp
    show "x2 * (1 - eps53) \<le> n2" by (rule n(8))
  qed
  have lo: "x1 * (1 - eps53) / (x2 * (1 + eps53)) \<le> n1 / n2"
  proof (rule frac_le)
    show "0 \<le> n1" using n1p by simp
    show "x1 * (1 - eps53) \<le> n1" by (rule n(6))
    show "0 < n2" by (rule n2p)
    show "n2 \<le> x2 * (1 + eps53)" by (rule n(9))
  qed
  have fu: "f * (1 - eps53) \<le> x1 / x2 * (1 + eps53) ^ 2"
  proof -
    have "f \<le> x1 * (1 + eps53) / (x2 * (1 - eps53)) * (1 + eps53)"
      using f(4) up e by (meson mult_right_mono order_less_imp_le order_trans)
    then have "f * (1 - eps53) \<le> x1 * (1 + eps53) / (x2 * (1 - eps53)) * (1 + eps53) * (1 - eps53)"
      using e by (intro mult_right_mono) simp_all
    also have "\<dots> = x1 / x2 * (1 + eps53) ^ 2"
      using e by (intro cancel_frac) simp
    finally show ?thesis .
  qed
  have fl: "x1 / x2 * (1 - eps53) ^ 2 \<le> f * (1 + eps53)"
  proof -
    have "x1 * (1 - eps53) / (x2 * (1 + eps53)) * (1 - eps53) \<le> f"
      using f(3) lo e by (meson mult_right_mono order_less_imp_le order_trans)
    then have "x1 * (1 - eps53) / (x2 * (1 + eps53)) * (1 - eps53) * (1 + eps53) \<le> f * (1 + eps53)"
      using e by (intro mult_right_mono) simp_all
    moreover have "x1 * (1 - eps53) / (x2 * (1 + eps53)) * (1 - eps53) * (1 + eps53)
        = x1 / x2 * (1 - eps53) ^ 2"
      using e by (intro cancel_frac) simp
    ultimately show ?thesis by simp
  qed
  have "reductionFactor T P S = Fin f" by (simp add: reductionFactor_def n(1,2) f(1))
  then show ?thesis using f0 f1 fu fl unfolding rho by blast
qed

lemma slashedAmount_zero_amount:
  assumes "0 \<le> f"
  shows "slashedAmount (Fin f) 0 = Inr 0"
  using assms by (simp add: slashedAmount_def js_mul_zero_left)

lemma slashedAmount_bounds_pos:
  assumes "1 \<le> T" "0 < S" "T + S \<le> 2 ^ 53" "1 \<le> P" "P \<le> 2 ^ 53" "1 \<le> a" "a \<le> 2 ^ 49"
  shows "\<exists>n. slashedAmount (reductionFactor T P S) a = Inr n \<and> 0 \<le> n \<and> n \<le> a \<and>
           \<bar>n - a * T div (T + S)\<bar> \<le> 1"
proof -
  define rho :: rat where "rho = of_int T / of_int (T + S)"
  obtain f where f: "reductionFactor T P S = Fin f" "1 / 2 ^ 109 \<le> f" "f \<le> 1"
      "f * (1 - eps53) \<le> rho * (1 + eps53) ^ 2" "rho * (1 - eps53) ^ 2 \<le> f * (1 + eps53)"
    using reductionFactor_bounds [OF assms(1-5)] unfolding rho_def by blast
  define x :: rat where "x = of_int a"
  have e: "0 < 1 - eps53" "0 < 1 + eps53" using eps53_bounds by simp_all
  have xr: "1 \<le> x" "x \<le> 2 ^ 49" using assms by (simp_all add: x_def)
  have na: "Number_of a = Fin x" using assms by (simp add: Number_of_exact x_def)
  have "(0::rat) < 1 / 2 ^ 109" by simp
  then have f0: "0 < f" using f(2) by linarith
  have rho0: "0 \<le> rho" "rho \<le> 1" using assms by (simp_all add: rho_def)
  have xf_lo: "1 / 2 ^ 109 \<le> x * f"
  proof -
    have "1 * f \<le> x * f" using xr f0 by (intro mult_right_mono) simp_all
    then have "f \<le> x * f" by simp
    then show ?thesis using f(2) by linarith
  qed
  have xf_hi: "x * f \<le> x"
  proof -
    have "x * f \<le> x * 1" using xr f(3) by (intro mult_left_mono) simp_all
    then show ?thesis by simp
  qed
  have "2 powi (- 1022) \<le> x * f" using xf_lo by (rule ge_powi_m1022) simp
  moreover have "x * f \<le> 2 powi 1023"
  proof (rule le_powi_1023)
    show "x * f \<le> 2 ^ 49" using xf_hi xr by linarith
  qed simp
  ultimately obtain m where m: "js_mul (Fin x) (Fin f) = Fin m" "m = round64 (x * f)"
      "x * f * (1 - eps53) \<le> m" "m \<le> x * f * (1 + eps53)"
    using js_mul_rel_gen [of x f] xr f0 by auto
  have "round64 (x * f) \<le> round64 (of_int a)" using xf_hi unfolding x_def by (rule round64_mono)
  also have "\<dots> = of_int a" using assms by (intro round64_int) simp
  finally have mx: "m \<le> x" by (simp add: m(2) x_def)
  have m0: "0 \<le> m" using xr f0 by (simp add: m(2) round64_nonneg)
  have val: "slashedAmount (reductionFactor T P S) a = Inr \<lfloor>m\<rfloor>"
    by (simp add: slashedAmount_def f(1) na m(1))
  have n0: "0 \<le> \<lfloor>m\<rfloor>" using m0 by simp
  have na': "\<lfloor>m\<rfloor> \<le> a" using mx by (simp add: x_def floor_le_iff)
  have up: "m \<le> x * rho + 5 / 16"
  proof -
    have "m * (1 - eps53) \<le> x * f * (1 + eps53) * (1 - eps53)"
      using m(4) e by (intro mult_right_mono) simp_all
    also have "\<dots> = x * (f * (1 - eps53)) * (1 + eps53)" by simp
    also have "\<dots> \<le> x * (rho * (1 + eps53) ^ 2) * (1 + eps53)"
      using f(4) xr e by (intro mult_right_mono mult_left_mono) simp_all
    also have "\<dots> = x * rho * (1 + eps53) ^ 3" by (simp add: power2_eq_square power3_eq_cube)
    also have "\<dots> \<le> x * rho * ((1 + 5 * eps53) * (1 - eps53))"
      using eps53_cube_upper xr rho0 by (intro mult_left_mono) simp_all
    finally have "m * (1 - eps53) \<le> (x * rho * (1 + 5 * eps53)) * (1 - eps53)" by simp
    then have "m \<le> x * rho * (1 + 5 * eps53)" using e by (simp only: mult_le_cancel_right_pos)
    also have "\<dots> = x * rho + 5 * eps53 * (x * rho)" by (simp add: algebra_simps)
    also have "\<dots> \<le> x * rho + 5 * eps53 * 2 ^ 49"
    proof -
      have "x * rho \<le> 2 ^ 49 * 1" using xr rho0 by (intro mult_mono) simp_all
      then have "5 * eps53 * (x * rho) \<le> 5 * eps53 * 2 ^ 49"
        using eps53_bounds by (intro mult_left_mono) simp_all
      then show ?thesis by simp
    qed
    finally show ?thesis using eps53_small by linarith
  qed
  have lo: "x * rho - 5 / 16 \<le> m"
  proof -
    have "x * rho * ((1 - 5 * eps53) * (1 + eps53)) \<le> x * rho * (1 - eps53) ^ 3"
      using eps53_cube_lower xr rho0 by (intro mult_left_mono) simp_all
    also have "\<dots> = x * (rho * (1 - eps53) ^ 2) * (1 - eps53)"
      by (simp add: power2_eq_square power3_eq_cube)
    also have "\<dots> \<le> x * (f * (1 + eps53)) * (1 - eps53)"
      using f(5) xr e by (intro mult_right_mono mult_left_mono) simp_all
    also have "\<dots> = x * f * (1 - eps53) * (1 + eps53)" by simp
    also have "\<dots> \<le> m * (1 + eps53)" using m(3) e by (intro mult_right_mono) simp_all
    finally have "(x * rho * (1 - 5 * eps53)) * (1 + eps53) \<le> m * (1 + eps53)" by simp
    then have "x * rho * (1 - 5 * eps53) \<le> m" using e by (simp only: mult_le_cancel_right_pos)
    moreover have "x * rho * (1 - 5 * eps53) = x * rho - 5 * eps53 * (x * rho)"
      by (simp add: algebra_simps)
    moreover have "5 * eps53 * (x * rho) \<le> 5 * eps53 * 2 ^ 49"
    proof -
      have "x * rho \<le> 2 ^ 49 * 1" using xr rho0 by (intro mult_mono) simp_all
      then show ?thesis using eps53_bounds by (intro mult_left_mono) simp_all
    qed
    ultimately show ?thesis using eps53_small by linarith
  qed
  have fl: "\<lfloor>x * rho\<rfloor> = a * T div (T + S)"
  proof -
    have "x * rho = of_int (a * T) / of_int (T + S)" by (simp add: x_def rho_def)
    then show ?thesis by (simp only: floor_divide_of_int_eq)
  qed
  have "of_int \<lfloor>m\<rfloor> \<le> m" "m < of_int \<lfloor>m\<rfloor> + 1"
       "of_int \<lfloor>x * rho\<rfloor> \<le> x * rho" "x * rho < of_int \<lfloor>x * rho\<rfloor> + 1"
    by linarith+
  then have "(of_int \<lfloor>m\<rfloor> :: rat) < of_int \<lfloor>x * rho\<rfloor> + 2"
       "(of_int \<lfloor>x * rho\<rfloor> :: rat) < of_int \<lfloor>m\<rfloor> + 2"
    using up lo by linarith+
  then have "\<lfloor>m\<rfloor> < \<lfloor>x * rho\<rfloor> + 2" "\<lfloor>x * rho\<rfloor> < \<lfloor>m\<rfloor> + 2"
    by (metis of_int_add of_int_less_iff of_int_numeral)+
  then have "\<bar>\<lfloor>m\<rfloor> - a * T div (T + S)\<bar> \<le> 1" unfolding fl by linarith
  then show ?thesis using val n0 na' by blast
qed

lemma old_rate_pos:
  assumes "0 \<le> T" "0 < S" "T + S \<le> 2 ^ 53" "1 \<le> P" "P \<le> 2 ^ 53"
  shows "\<exists>n2. js_div (Number_of (T + S)) (Number_of P) = Fin n2 \<and> 0 < n2"
proof -
  define p ts :: rat where "p = of_int P" and "ts = of_int (T + S)"
  have n: "Number_of P = Fin p" "Number_of (T + S) = Fin ts"
    using assms by (simp_all add: Number_of_exact p_def ts_def)
  have r: "1 \<le> p" "p \<le> 2 ^ 53" "1 \<le> ts" "ts \<le> 2 ^ 53"
    using assms by (simp_all add: p_def ts_def)
  have p0: "0 < p" "0 \<le> ts" using r by simp_all
  have x2: "1 / 2 ^ 53 \<le> ts / p" "ts / p \<le> 2 ^ 53"
    by (rule ratio_ge [OF r(3) p0(1) r(2)], rule ratio_le [OF p0(2) r(4) r(1)])
  have nrm: "2 powi (- 1022) \<le> ts / p" using x2(1) by (rule ge_powi_m1022) simp
  moreover have "ts / p \<le> 2 powi 1023" using x2(2) by (rule le_powi_1023) simp
  ultimately obtain n2 where n2: "js_div (Fin ts) (Fin p) = Fin n2"
      "ts / p * (1 - eps53) \<le> n2"
    using js_div_rel_gen [of ts p] r by auto
  have "0 < ts / p * (1 - eps53)" using r eps53_bounds by simp
  then have "0 < n2" using n2(2) by linarith
  then show ?thesis using n2(1) unfolding n by blast
qed

lemma slashedAmount_bounds:
  assumes "0 \<le> T" "0 < S" "T + S \<le> 2 ^ 53" "1 \<le> P" "P \<le> 2 ^ 53" "0 \<le> a" "a \<le> 2 ^ 49"
  shows "\<exists>n. slashedAmount (reductionFactor T P S) a = Inr n \<and> 0 \<le> n \<and> n \<le> a \<and>
           \<bar>n - a * T div (T + S)\<bar> \<le> 1"
proof (cases "T = 0")
  case True
  obtain n2 where n2: "js_div (Number_of (T + S)) (Number_of P) = Fin n2" "0 < n2"
    using old_rate_pos [OF assms(1-5)] by blast
  have np: "Number_of P = Fin (of_int P)" using assms by (simp add: Number_of_exact)
  have "js_div (Number_of 0) (Number_of P) = Fin 0"
    using assms(4) by (simp add: np js_div_zero_left)
  then have f: "reductionFactor T P S = Fin 0"
    using n2 True by (simp add: reductionFactor_def js_div_zero_left)
  have na: "Number_of a = Fin (of_int a)" using assms by (simp add: Number_of_exact)
  have "slashedAmount (Fin 0) a = Inr 0"
    using assms(6) by (simp add: slashedAmount_def na js_mul_zero_right)
  then show ?thesis using f True assms(6) by simp
next
  case False
  then have T1: "1 \<le> T" using assms(1) by simp
  show ?thesis
  proof (cases "a = 0")
    case True
    obtain f where f: "reductionFactor T P S = Fin f" "1 / 2 ^ 109 \<le> f"
      using reductionFactor_bounds [OF T1 assms(2-5)] by blast
    have "(0::rat) < 1 / 2 ^ 109" by simp
    then have "0 \<le> f" using f(2) by linarith
    then show ?thesis using f(1) True by (simp add: slashedAmount_zero_amount)
  next
    case False
    then have "1 \<le> a" using assms(6) by simp
    then show ?thesis using slashedAmount_bounds_pos [OF T1 assms(2-5) _ assms(7)] by blast
  qed
qed

lemma updateAmount_ids [simp]: "map wid (updateAmount i n tbl) = map wid tbl"
  by (simp add: updateAmount_def comp_def if_distrib [of wid] cong: if_cong)

lemma recalcLoop_map:
  assumes "distinct (map wid tbl)" "set ws \<subseteq> set tbl" "distinct (map wid ws)"
    and "\<forall>w \<in> set ws. \<exists>n. slashedAmount factor (wamount w) = Inr n"
  shows "recalcLoop factor ws tbl =
           (map (\<lambda>r. if r \<in> set ws then r\<lparr>wamount := projr (slashedAmount factor (wamount r))\<rparr>
                     else r) tbl, None)"
  using assms
proof (induction ws arbitrary: tbl)
  case Nil
  then show ?case by simp
next
  case (Cons w ws)
  obtain n where n: "slashedAmount factor (wamount w) = Inr n" using Cons.prems(4) by auto
  have win: "w \<in> set tbl" using Cons.prems(2) by simp
  have same: "r = w" if "r \<in> set tbl" "wid r = wid w" for r
    using that win Cons.prems(1) by (meson distinct_map inj_onD)
  define tbl1 where "tbl1 = updateAmount (wid w) n tbl"
  have step: "(if n \<noteq> wamount w then updateAmount (wid w) n tbl else tbl) = tbl1"
  proof (cases "n = wamount w")
    case True
    have "(if wid r = wid w then r\<lparr>wamount := n\<rparr> else r) = r" if "r \<in> set tbl" for r
    proof (cases "wid r = wid w")
      case True
      then have "r = w" using same that by simp
      then show ?thesis using \<open>n = wamount w\<close> by simp
    next
      case False
      then show ?thesis by simp
    qed
    then have "updateAmount (wid w) n tbl = map (\<lambda>r. r) tbl"
      unfolding updateAmount_def by (intro map_cong) auto
    then show ?thesis using True by (simp add: tbl1_def)
  next
    case False
    then show ?thesis by (simp add: tbl1_def)
  qed
  have d1: "distinct (map wid tbl1)" using Cons.prems(1) by (simp add: tbl1_def)
  have notin: "wid w \<notin> wid ` set ws" using Cons.prems(3) by simp
  have sub1: "set ws \<subseteq> set tbl1"
  proof
    fix r assume r: "r \<in> set ws"
    then have "wid r \<in> wid ` set ws" by (rule imageI)
    then have "wid r \<noteq> wid w" using notin by metis
    moreover have "r \<in> set tbl" using r Cons.prems(2) by auto
    ultimately have "r \<in> set tbl" "wid r \<noteq> wid w" by simp_all
    then show "r \<in> set tbl1" unfolding tbl1_def updateAmount_def by force
  qed
  have ih: "recalcLoop factor ws tbl1 =
      (map (\<lambda>r. if r \<in> set ws then r\<lparr>wamount := projr (slashedAmount factor (wamount r))\<rparr>
                else r) tbl1, None)"
    using Cons.IH [OF d1 sub1] Cons.prems(3,4) by simp
  have "map (\<lambda>r. if r \<in> set ws then r\<lparr>wamount := projr (slashedAmount factor (wamount r))\<rparr>
                else r) tbl1
      = map (\<lambda>r. if r \<in> set (w # ws)
                   then r\<lparr>wamount := projr (slashedAmount factor (wamount r))\<rparr> else r) tbl"
    unfolding tbl1_def updateAmount_def map_map
  proof (rule map_cong [OF refl])
    fix r assume r: "r \<in> set tbl"
    show "((\<lambda>r. if r \<in> set ws then r\<lparr>wamount := projr (slashedAmount factor (wamount r))\<rparr> else r)
           \<circ> (\<lambda>r. if wid r = wid w then r\<lparr>wamount := n\<rparr> else r)) r
        = (if r \<in> set (w # ws) then r\<lparr>wamount := projr (slashedAmount factor (wamount r))\<rparr> else r)"
    proof (cases "wid r = wid w")
      case True
      then have rw: "r = w" using same r by simp
      have "w\<lparr>wamount := n\<rparr> \<notin> set ws"
      proof
        assume "w\<lparr>wamount := n\<rparr> \<in> set ws"
        then have "wid (w\<lparr>wamount := n\<rparr>) \<in> wid ` set ws" by (rule imageI)
        then show False using notin by simp
      qed
      then show ?thesis using rw n by simp
    next
      case False
      then have "r \<noteq> w" by auto
      then show ?thesis using False by simp
    qed
  qed
  then show ?case using n step ih by simp
qed

text \<open>
  The relation between a row before and after the recalculation that follows a slash
  of \<open>S\<close> leaving \<open>T\<close> staked: a row that is not pending is unchanged; a pending
  row changes in its amount only, which does not grow and is within one stroop of
  \<open>\<lfloor>amount * T / (T + S)\<rfloor>\<close>.
\<close>

definition slash_adjusted :: "int \<Rightarrow> int \<Rightarrow> withdrawal \<Rightarrow> withdrawal \<Rightarrow> bool" where
  "slash_adjusted T S w w' \<longleftrightarrow>
     (if status w = ''pending''
      then w' = w\<lparr>wamount := wamount w'\<rparr> \<and> 0 \<le> wamount w' \<and> wamount w' \<le> wamount w \<and>
           \<bar>wamount w' - wamount w * T div (T + S)\<bar> \<le> 1
      else w' = w)"

definition amounts_in_range :: "withdrawal list \<Rightarrow> bool" where
  "amounts_in_range tbl \<longleftrightarrow>
     list_all (\<lambda>w. status w = ''pending'' \<longrightarrow> 0 \<le> wamount w \<and> wamount w \<le> 2 ^ 49) tbl"

text \<open>
  Claim C2, amended: for a slash \<open>S > 0\<close> that leaves \<open>T \<ge> 0\<close> staked
  (\<open>T + S \<le> 2\<^sup>5\<^sup>3\<close>), a supply between \<open>1\<close> and \<open>2\<^sup>5\<^sup>3\<close>, a table with distinct
  ids and pending amounts between \<open>0\<close> and \<open>2\<^sup>4\<^sup>9\<close>, the operation returns without an
  exception; every row that is not pending is unchanged; every pending row changes in
  its amount only, and the new amount is at most the old one and within one stroop of
  \<open>\<lfloor>old * T / (T + S)\<rfloor>\<close>.
\<close>

theorem slash_recalculation:
  assumes "0 \<le> totalStaked" "0 < slashAmount" "totalStaked + slashAmount \<le> 2 ^ 53"
    and "1 \<le> totalSupply" "totalSupply \<le> 2 ^ 53"
    and "distinct (map wid tbl)" "amounts_in_range tbl"
  shows "\<exists>tbl'. recalculateWithdrawalQueueAfterSlash totalStaked totalSupply slashAmount tbl
                  = (tbl', None) \<and>
               list_all2 (slash_adjusted totalStaked slashAmount) tbl tbl'"
proof -
  define factor where "factor = reductionFactor totalStaked totalSupply slashAmount"
  define ws where "ws = filter (\<lambda>w. status w = ''pending'') tbl"
  define g where "g = (\<lambda>r. if r \<in> set ws
      then r\<lparr>wamount := projr (slashedAmount factor (wamount r))\<rparr> else r)"
  obtain n2 where n2: "js_div (Number_of (totalStaked + slashAmount)) (Number_of totalSupply) = Fin n2"
      "0 < n2"
    using old_rate_pos [OF assms(1-5)] by blast
  have guard: "\<not> js_le (js_div (Number_of (totalStaked + slashAmount)) (Number_of totalSupply)) (Fin 0)"
    using n2 by (simp add: js_le_def js_lt_def)
  have amt: "\<exists>n. slashedAmount factor (wamount w) = Inr n \<and> 0 \<le> n \<and> n \<le> wamount w \<and>
               \<bar>n - wamount w * totalStaked div (totalStaked + slashAmount)\<bar> \<le> 1"
    if "w \<in> set ws" for w
  proof -
    have "w \<in> set tbl" "status w = ''pending''" using that by (simp_all add: ws_def)
    then have "0 \<le> wamount w" "wamount w \<le> 2 ^ 49"
      using assms(7) by (auto simp: amounts_in_range_def list_all_iff)
    then show ?thesis
      unfolding factor_def by (rule slashedAmount_bounds [OF assms(1-5)])
  qed
  have dws: "distinct (map wid ws)" using assms(6) unfolding ws_def by (rule distinct_map_filter)
  have "recalcLoop factor ws tbl = (map g tbl, None)"
    unfolding g_def
    by (rule recalcLoop_map [OF assms(6) _ dws]) (use amt in \<open>auto simp: ws_def\<close>)
  then have res: "recalculateWithdrawalQueueAfterSlash totalStaked totalSupply slashAmount tbl
      = (map g tbl, None)"
    using assms(4) guard by (simp add: recalculateWithdrawalQueueAfterSlash_def factor_def ws_def)
  have "slash_adjusted totalStaked slashAmount r (g r)" if "r \<in> set tbl" for r
  proof (cases "status r = ''pending''")
    case True
    then have rin: "r \<in> set ws" using that by (simp add: ws_def)
    obtain n where n: "slashedAmount factor (wamount r) = Inr n" "0 \<le> n" "n \<le> wamount r"
        "\<bar>n - wamount r * totalStaked div (totalStaked + slashAmount)\<bar> \<le> 1"
      using amt [OF rin] by blast
    have "g r = r\<lparr>wamount := n\<rparr>" using rin n(1) by (simp add: g_def)
    then show ?thesis using True n by (simp add: slash_adjusted_def)
  next
    case False
    then have "r \<notin> set ws" by (simp add: ws_def)
    then show ?thesis using False by (simp add: g_def slash_adjusted_def)
  qed
  then have "list_all2 (slash_adjusted totalStaked slashAmount) tbl (map g tbl)"
    by (simp add: list_all2_map2 list_all2_same)
  then show ?thesis using res by blast
qed

definition completed_row :: "int \<Rightarrow> int \<Rightarrow> withdrawal" where
  "completed_row i a = \<lparr>wid = i, wallet = ''GB'', wamount = a, status = ''completed'',
                         unlockTime = 100, createdAt = 5\<rparr>"

theorem slash_recalculation_witness:
  "(\<exists>tbl'. recalculateWithdrawalQueueAfterSlash 1000000000 3000000000 4000000000
               [pending_row 1 10000000, completed_row 2 70000000] = (tbl', None) \<and>
           list_all2 (slash_adjusted 1000000000 4000000000)
               [pending_row 1 10000000, completed_row 2 70000000] tbl') \<and>
   recalculateWithdrawalQueueAfterSlash 1000000000 3000000000 4000000000
       [pending_row 1 10000000, completed_row 2 70000000]
     = ([pending_row 1 1999999, completed_row 2 70000000], None)"
proof -
  have "\<exists>tbl'. recalculateWithdrawalQueueAfterSlash 1000000000 3000000000 4000000000
               [pending_row 1 10000000, completed_row 2 70000000] = (tbl', None) \<and>
           list_all2 (slash_adjusted 1000000000 4000000000)
               [pending_row 1 10000000, completed_row 2 70000000] tbl'"
    by (rule slash_recalculation)
       (simp_all add: pending_row_def completed_row_def amounts_in_range_def)
  moreover have "recalculateWithdrawalQueueAfterSlash 1000000000 3000000000 4000000000
       [pending_row 1 10000000, completed_row 2 70000000]
     = ([pending_row 1 1999999, completed_row 2 70000000], None)"
    by code_simp
  ultimately show ?thesis by blast
qed

section \<open>The leverage engine\<close>

text \<open>
  \<open>LeverageEngine.simulate\<close>.  The class has no fields; the first argument of the model
  stands for \<open>this\<close>.  \<open>loops\<close> is an iteration count (the route accepts an integer
  between 1 and 20), modelled as a natural number.
\<close>

record LeverageSimulationInput =
  principal :: number
  loops :: nat
  collateralFactor :: number
  stakingAPR :: number
  borrowAPR :: number

record LeverageLoopDetail =
  loop :: number
  deposited :: number
  borrowed :: number
  totalStaked :: number
  totalBorrowed :: number

record LeverageSimulationResult =
  maxLeverage :: number
  effectiveLeverage :: number
  totalStaked :: number
  totalBorrowed :: number
  netYieldPercent :: number
  grossYield :: number
  borrowCost :: number
  netYield :: number
  loops :: "LeverageLoopDetail list"

text \<open>
  The state of the \<open>for\<close> loop: \<open>totalStaked\<close>, \<open>totalBorrowed\<close>, \<open>currentDeposit\<close>
  and the details pushed so far; \<open>leverage_step\<close> is its body at index \<open>i\<close>.
\<close>

type_synonym leverage_state = "number \<times> number \<times> number \<times> LeverageLoopDetail list"

definition leverage_step :: "number \<Rightarrow> leverage_state \<Rightarrow> nat \<Rightarrow> leverage_state" where
  "leverage_step cf st i =
     (case st of (ts, tb, currentDeposit, details) \<Rightarrow>
        (let ts' = js_add ts currentDeposit;
             b = js_mul currentDeposit cf;
             tb' = js_add tb b
         in (ts', tb', b,
             details @ [\<lparr>loop = Fin (of_nat (i + 1)), deposited = currentDeposit, borrowed = b,
                          totalStaked = ts', totalBorrowed = tb'\<rparr>])))"

definition leverage_loop :: "number \<Rightarrow> number \<Rightarrow> nat \<Rightarrow> leverage_state" where
  "leverage_loop p cf n = foldl (leverage_step cf) (Fin 0, Fin 0, p, []) [0..<n]"

definition LeverageEngine_simulate :: "'this \<Rightarrow> LeverageSimulationInput \<Rightarrow> LeverageSimulationResult" where
  "LeverageEngine_simulate this input =
     (case leverage_loop (principal input) (collateralFactor input) (LeverageSimulationInput.loops input) of
        (ts, tb, currentDeposit, details) \<Rightarrow>
          (let gross = js_mul ts (stakingAPR input);
               cost = js_mul tb (borrowAPR input);
               net = js_sub gross cost
           in \<lparr>maxLeverage = js_div (Fin 1) (js_sub (Fin 1) (collateralFactor input)),
               effectiveLeverage = js_div ts (principal input),
               totalStaked = ts,
               totalBorrowed = tb,
               netYieldPercent = js_mul (js_div net (principal input)) (Fin 100),
               grossYield = gross,
               borrowCost = cost,
               netYield = net,
               loops = details\<rparr>))"

section \<open>The restaking engine\<close>

text \<open>
  \<open>RestakingEngine.simulate\<close>.  The engine holds a database client, \<open>this.prisma\<close>, the
  first argument of the model; \<open>p\<close> and \<open>n\<close> are the parameters \<open>principal\<close> and \<open>loops\<close>.
  The last three parameters (\<open>collateralFactor\<close>, \<open>stakingAPR\<close>, \<open>borrowAPR\<close>) have
  default values, taken when the argument is \<open>undefined\<close>: \<open>0.7\<close>, \<open>0.06\<close> and \<open>0.04\<close> as
  doubles.
\<close>

record RestakingLoopStep =
  step :: number
  action :: string
  amount :: number
  totalStaked :: number
  totalBorrowed :: number
  healthFactor :: number

record RestakingSimulationResult =
  initialDeposit :: number
  loops :: nat
  totalStaked :: number
  totalBorrowed :: number
  effectiveLeverage :: number
  estimatedNetAPR :: number
  healthFactor :: number
  steps :: "RestakingLoopStep list"







section \<open>The leverage engine: geometric sums\<close>

text \<open>
  A double operation evaluated from its definition: the result \<open>y = m / 2\<^sup>k\<close> has a
  53-bit significand \<open>m\<close> and lies within half a unit of the exact value.
\<close>

lemma rne_unique:
  assumes "\<bar>t - of_int m\<bar> < 1 / 2"
  shows "rne t = m"
proof -
  have "\<bar>of_int (rne t) - t\<bar> \<le> 1 / 2" by (rule rne_err)
  then have "\<bar>(of_int (rne t) :: rat) - of_int m\<bar> < 1" using assms by linarith
  then have "\<bar>(of_int (rne t - m) :: rat)\<bar> < 1" by simp
  then have "\<bar>rne t - m\<bar> < 1" by (metis of_int_abs of_int_less_1_iff)
  then show ?thesis by linarith
qed

lemma round64_evalI:
  fixes x :: rat
  assumes "2 ^ 52 \<le> x * 2 ^ k" "x * 2 ^ k < 2 ^ 53" "k \<le> 1074"
    and "\<bar>x * 2 ^ k - of_int m\<bar> < 1 / 2"
  shows "round64 x = of_int m / 2 ^ k"
proof -
  have k0: "(0::rat) < 2 ^ k" by simp
  have x0: "0 < x"
  proof (rule ccontr)
    assume "\<not> 0 < x"
    then have "x * 2 ^ k \<le> 0" using k0 by (simp add: mult_le_0_iff)
    moreover have "(0::rat) < 2 ^ 52" by simp
    ultimately show False using assms(1) by linarith
  qed
  have p1: "(2::rat) powi (52 - int k) = 2 ^ 52 / 2 ^ k"
    by (simp add: power_int_diff)
  have p2: "(2::rat) powi (52 - int k + 1) = 2 ^ 53 / 2 ^ k"
  proof -
    have "52 - int k + 1 = 53 - int k" by simp
    then show ?thesis by (simp add: power_int_diff)
  qed
  have lo: "2 powi (52 - int k) \<le> x"
    unfolding p1 using assms(1) k0 by (simp add: divide_le_eq)
  have hi: "x < 2 powi (52 - int k + 1)"
    unfolding p2 using assms(2) k0 by (simp add: less_divide_eq)
  have il: "ilog2 x = 52 - int k" using lo hi by (rule ilog2_unique)
  have fe: "fexp x = 52 - int k" using il x0 assms(3) by (simp add: fexp_def)
  have q: "(2::rat) powi (fexp x - 52) = 1 / 2 ^ k"
    unfolding fe by (simp add: power_int_minus inverse_eq_divide)
  have "x / (1 / 2 ^ k) = x * 2 ^ k" by simp
  then have "rne (x / (1 / 2 ^ k)) = m" using assms(4) by (simp only: rne_unique)
  then show ?thesis using x0 q by (simp add: round64_def Let_def)
qed

lemma js_add_evalI:
  assumes "2 ^ 52 \<le> (a + b) * 2 ^ k" "(a + b) * 2 ^ k < 2 ^ 53" "k \<le> 1074"
    and "\<bar>(a + b) * 2 ^ k - of_int m\<bar> < 1 / 2" "y * 2 ^ k = of_int m"
  shows "js_add (Fin a) (Fin b) = Fin y"
proof -
  have k0: "(0::rat) < 2 ^ k" by simp
  have r: "round64 (a + b) = of_int m / 2 ^ k" using assms(1-4) by (rule round64_evalI)
  have y: "y = of_int m / 2 ^ k" using assms(5) k0 by (simp add: eq_divide_eq)
  have x0: "0 < a + b"
  proof (rule ccontr)
    assume "\<not> 0 < a + b"
    then have "(a + b) * 2 ^ k \<le> 0" using k0 by (simp add: mult_le_0_iff)
    moreover have "(0::rat) < 2 ^ 52" by simp
    ultimately show False using assms(1) by linarith
  qed
  have "(a + b) * 1 \<le> (a + b) * 2 ^ k" using x0 by (intro mult_left_mono) simp_all
  then have "a + b \<le> 2 ^ 53" using assms(2) by simp
  then have "a + b \<le> 2 powi 1023" using pow53_le_powi by linarith
  then have "js_round (a + b) = Fin (round64 (a + b))" using x0 by (intro js_round_Fin) simp_all
  then show ?thesis using x0 r y by (simp add: js_add_def)
qed

lemma js_mul_evalI:
  assumes "0 < a" "0 < b"
    and "2 ^ 52 \<le> (a * b) * 2 ^ k" "(a * b) * 2 ^ k < 2 ^ 53" "k \<le> 1074"
    and "\<bar>(a * b) * 2 ^ k - of_int m\<bar> < 1 / 2" "y * 2 ^ k = of_int m"
  shows "js_mul (Fin a) (Fin b) = Fin y"
proof -
  have k0: "(0::rat) < 2 ^ k" by simp
  have r: "round64 (a * b) = of_int m / 2 ^ k" using assms(3-6) by (rule round64_evalI)
  have y: "y = of_int m / 2 ^ k" using assms(7) k0 by (simp add: eq_divide_eq)
  have x0: "0 < a * b" using assms(1,2) by simp
  have "(a * b) * 1 \<le> (a * b) * 2 ^ k" using x0 by (intro mult_left_mono) simp_all
  then have "a * b \<le> 2 ^ 53" using assms(4) by simp
  then have "a * b \<le> 2 powi 1023" using pow53_le_powi by linarith
  then have "js_mul (Fin a) (Fin b) = Fin (round64 (a * b))" using assms(1,2) by (intro js_mul_pos)
  then show ?thesis using r y by simp
qed

lemma js_div_evalI:
  assumes "0 < a" "0 < b"
    and "2 ^ 52 \<le> (a / b) * 2 ^ k" "(a / b) * 2 ^ k < 2 ^ 53" "k \<le> 1074"
    and "\<bar>(a / b) * 2 ^ k - of_int m\<bar> < 1 / 2" "y * 2 ^ k = of_int m"
  shows "js_div (Fin a) (Fin b) = Fin y"
proof -
  have k0: "(0::rat) < 2 ^ k" by simp
  have r: "round64 (a / b) = of_int m / 2 ^ k" using assms(3-6) by (rule round64_evalI)
  have y: "y = of_int m / 2 ^ k" using assms(7) k0 by (simp add: eq_divide_eq)
  have x0: "0 < a / b" using assms(1,2) by simp
  have "(a / b) * 1 \<le> (a / b) * 2 ^ k" using x0 by (intro mult_left_mono) simp_all
  then have "a / b \<le> 2 ^ 53" using assms(4) by simp
  then have "a / b \<le> 2 powi 1023" using pow53_le_powi by linarith
  then have "js_div (Fin a) (Fin b) = Fin (round64 (a / b))" using assms(1,2) by (intro js_div_pos)
  then show ?thesis using r y by simp
qed

text \<open>
  An input of the route: a principal of 1, the collateral factor \<open>0.1\<close> (the double
  nearest to 1/10), a staking APR of \<open>0.06\<close> and a borrow APR of \<open>0.04\<close>.
\<close>

definition demo_input :: "nat \<Rightarrow> LeverageSimulationInput" where
  "demo_input n =
     \<lparr>principal = Fin 1, loops = n,
      collateralFactor = Fin (3602879701896397 / 36028797018963968),
      stakingAPR = Fin (1080863910568919 / 18014398509481984),
      borrowAPR = Fin (5764607523034235 / 144115188075855872)\<rparr>"

lemma leverage_loop_Suc:
  "leverage_loop p cf (Suc n) = leverage_step cf (leverage_loop p cf n) n"
  by (simp add: leverage_loop_def)

text \<open>The two components of the loop state that the effective leverage depends on.\<close>

definition staked_and_deposit :: "leverage_state \<Rightarrow> number \<times> number" where
  "staked_and_deposit st = (fst st, fst (snd (snd st)))"

lemma staked_and_deposit_step:
  assumes "staked_and_deposit (leverage_loop p cf n) = (ts, cd)" "n' = Suc n"
    and "js_add ts cd = ts'" "js_mul cd cf = cd'"
  shows "staked_and_deposit (leverage_loop p cf n') = (ts', cd')"
proof -
  obtain ts0 tb0 cd0 ds0 where st: "leverage_loop p cf n = (ts0, tb0, cd0, ds0)"
    by (metis prod_cases4)
  then have "ts0 = ts" "cd0 = cd" using assms(1) by (simp_all add: staked_and_deposit_def)
  then show ?thesis
    using st assms(2-4)
    by (simp add: leverage_loop_Suc leverage_step_def staked_and_deposit_def Let_def)
qed

lemma simulate_effectiveLeverage:
  "LeverageSimulationResult.effectiveLeverage (LeverageEngine_simulate this input) =
     js_div (fst (leverage_loop (principal input) (collateralFactor input)
                    (LeverageSimulationInput.loops input))) (principal input)"
  by (simp add: LeverageEngine_simulate_def Let_def split: prod.splits)

lemma simulate_totalStaked:
  "LeverageSimulationResult.totalStaked (LeverageEngine_simulate this input) =
     fst (leverage_loop (principal input) (collateralFactor input)
            (LeverageSimulationInput.loops input))"
  by (simp add: LeverageEngine_simulate_def Let_def split: prod.splits)

lemma simulate_maxLeverage:
  "maxLeverage (LeverageEngine_simulate this input) =
     js_div (Fin 1) (js_sub (Fin 1) (collateralFactor input))"
  by (simp add: LeverageEngine_simulate_def Let_def split: prod.splits)

text \<open>
  Claim C10 as stated fails: the simulator computes in doubles.  For a principal of 1
  and a collateral factor of \<open>0.1\<close>, two loops return \<open>totalStaked = 1.1\<close> (the double
  \<open>2476979795053773 / 2\<^sup>5\<^sup>1\<close>), which is not \<open>1 + cf\<close>; and 16 loops and 17 loops return
  the same \<open>effectiveLeverage\<close>, \<open>1.1111111111111112\<close>, which is also the returned
  \<open>maxLeverage\<close>.  So the effective leverage is neither strictly increasing in \<open>loops\<close>
  nor strictly below \<open>maxLeverage\<close>.
\<close>

theorem leverage_geometric_counterexample:
  "LeverageSimulationResult.totalStaked (LeverageEngine_simulate () (demo_input 2))
     = Fin (2476979795053773 / 2251799813685248) \<and>
   (1::rat) * (1 + 3602879701896397 / 36028797018963968) \<noteq> 2476979795053773 / 2251799813685248 \<and>
   LeverageSimulationResult.effectiveLeverage (LeverageEngine_simulate () (demo_input 16))
     = Fin (2501999792983609 / 2251799813685248) \<and>
   LeverageSimulationResult.effectiveLeverage (LeverageEngine_simulate () (demo_input 17))
     = Fin (2501999792983609 / 2251799813685248) \<and>
   maxLeverage (LeverageEngine_simulate () (demo_input 17))
     = Fin (2501999792983609 / 2251799813685248)"
proof -
  let ?cf = "Fin (3602879701896397 / 36028797018963968)"
  let ?L = "leverage_loop (Fin 1) ?cf"
  have s0: "staked_and_deposit (?L 0) = (Fin 0, Fin 1)"
    by (simp add: staked_and_deposit_def leverage_loop_def)
  have a0: "js_add (Fin 0) (Fin 1) = Fin 1"
    by (rule js_add_evalI [where k = 52 and m = 4503599627370496]) simp_all
  have m0: "js_mul (Fin 1) ?cf = Fin (3602879701896397 / 36028797018963968)"
    by (rule js_mul_evalI [where k = 56 and m = 7205759403792794]) simp_all
  have s1: "staked_and_deposit (?L 1) = (Fin 1, Fin (3602879701896397 / 36028797018963968))"
    by (rule staked_and_deposit_step [OF s0 _ a0 m0]) simp
  have a1: "js_add (Fin 1) (Fin (3602879701896397 / 36028797018963968)) = Fin (2476979795053773 / 2251799813685248)"
    by (rule js_add_evalI [where k = 52 and m = 4953959590107546]) simp_all
  have m1: "js_mul (Fin (3602879701896397 / 36028797018963968)) ?cf = Fin (1441151880758559 / 144115188075855872)"
    by (rule js_mul_evalI [where k = 59 and m = 5764607523034236]) simp_all
  have s2: "staked_and_deposit (?L 2) = (Fin (2476979795053773 / 2251799813685248), Fin (1441151880758559 / 144115188075855872))"
    by (rule staked_and_deposit_step [OF s1 _ a1 m1]) simp
  have a2: "js_add (Fin (2476979795053773 / 2251799813685248)) (Fin (1441151880758559 / 144115188075855872)) = Fin (4998995586381251 / 4503599627370496)"
    by (rule js_add_evalI [where k = 52 and m = 4998995586381251]) simp_all
  have m2: "js_mul (Fin (1441151880758559 / 144115188075855872)) ?cf = Fin (4611686018427389 / 4611686018427387904)"
    by (rule js_mul_evalI [where k = 62 and m = 4611686018427389]) simp_all
  have s3: "staked_and_deposit (?L 3) = (Fin (4998995586381251 / 4503599627370496), Fin (4611686018427389 / 4611686018427387904))"
    by (rule staked_and_deposit_step [OF s2 _ a2 m2]) simp
  have a3: "js_add (Fin (4998995586381251 / 4503599627370496)) (Fin (4611686018427389 / 4611686018427387904)) = Fin (5003499186008621 / 4503599627370496)"
    by (rule js_add_evalI [where k = 52 and m = 5003499186008621]) simp_all
  have m3: "js_mul (Fin (4611686018427389 / 4611686018427387904)) ?cf = Fin (7378697629483823 / 73786976294838206464)"
    by (rule js_mul_evalI [where k = 66 and m = 7378697629483823]) simp_all
  have s4: "staked_and_deposit (?L 4) = (Fin (5003499186008621 / 4503599627370496), Fin (7378697629483823 / 73786976294838206464))"
    by (rule staked_and_deposit_step [OF s3 _ a3 m3]) simp
  have a4: "js_add (Fin (5003499186008621 / 4503599627370496)) (Fin (7378697629483823 / 73786976294838206464)) = Fin (2501974772985679 / 2251799813685248)"
    by (rule js_add_evalI [where k = 52 and m = 5003949545971358]) simp_all
  have m4: "js_mul (Fin (7378697629483823 / 73786976294838206464)) ?cf = Fin (5902958103587059 / 590295810358705651712)"
    by (rule js_mul_evalI [where k = 69 and m = 5902958103587059]) simp_all
  have s5: "staked_and_deposit (?L 5) = (Fin (2501974772985679 / 2251799813685248), Fin (5902958103587059 / 590295810358705651712))"
    by (rule staked_and_deposit_step [OF s4 _ a4 m4]) simp
  have a5: "js_add (Fin (2501974772985679 / 2251799813685248)) (Fin (5902958103587059 / 590295810358705651712)) = Fin (312749661372977 / 281474976710656)"
    by (rule js_add_evalI [where k = 52 and m = 5003994581967632]) simp_all
  have m5: "js_mul (Fin (5902958103587059 / 590295810358705651712)) ?cf = Fin (4722366482869647 / 4722366482869645213696)"
    by (rule js_mul_evalI [where k = 72 and m = 4722366482869647]) simp_all
  have s6: "staked_and_deposit (?L 6) = (Fin (312749661372977 / 281474976710656), Fin (4722366482869647 / 4722366482869645213696))"
    by (rule staked_and_deposit_step [OF s5 _ a5 m5]) simp
  have a6: "js_add (Fin (312749661372977 / 281474976710656)) (Fin (4722366482869647 / 4722366482869645213696)) = Fin (5003999085567259 / 4503599627370496)"
    by (rule js_add_evalI [where k = 52 and m = 5003999085567259]) simp_all
  have m6: "js_mul (Fin (4722366482869647 / 4722366482869645213696)) ?cf = Fin (1888946593147859 / 18889465931478580854784)"
    by (rule js_mul_evalI [where k = 76 and m = 7555786372591436]) simp_all
  have s7: "staked_and_deposit (?L 7) = (Fin (5003999085567259 / 4503599627370496), Fin (1888946593147859 / 18889465931478580854784))"
    by (rule staked_and_deposit_step [OF s6 _ a6 m6]) simp
  have a7: "js_add (Fin (5003999085567259 / 4503599627370496)) (Fin (1888946593147859 / 18889465931478580854784)) = Fin (2501999767963611 / 2251799813685248)"
    by (rule js_add_evalI [where k = 52 and m = 5003999535927222]) simp_all
  have m7: "js_mul (Fin (1888946593147859 / 18889465931478580854784)) ?cf = Fin (6044629098073149 / 604462909807314587353088)"
    by (rule js_mul_evalI [where k = 79 and m = 6044629098073149]) simp_all
  have s8: "staked_and_deposit (?L 8) = (Fin (2501999767963611 / 2251799813685248), Fin (6044629098073149 / 604462909807314587353088))"
    by (rule staked_and_deposit_step [OF s7 _ a7 m7]) simp
  have a8: "js_add (Fin (2501999767963611 / 2251799813685248)) (Fin (6044629098073149 / 604462909807314587353088)) = Fin (2501999790481609 / 2251799813685248)"
    by (rule js_add_evalI [where k = 52 and m = 5003999580963218]) simp_all
  have m8: "js_mul (Fin (6044629098073149 / 604462909807314587353088)) ?cf = Fin (4835703278458519 / 4835703278458516698824704)"
    by (rule js_mul_evalI [where k = 82 and m = 4835703278458519]) simp_all
  have s9: "staked_and_deposit (?L 9) = (Fin (2501999790481609 / 2251799813685248), Fin (4835703278458519 / 4835703278458516698824704))"
    by (rule staked_and_deposit_step [OF s8 _ a8 m8]) simp
  have a9: "js_add (Fin (2501999790481609 / 2251799813685248)) (Fin (4835703278458519 / 4835703278458516698824704)) = Fin (2501999792733409 / 2251799813685248)"
    by (rule js_add_evalI [where k = 52 and m = 5003999585466818]) simp_all
  have m9: "js_mul (Fin (4835703278458519 / 4835703278458516698824704)) ?cf = Fin (7737125245533631 / 77371252455336267181195264)"
    by (rule js_mul_evalI [where k = 86 and m = 7737125245533631]) simp_all
  have s10: "staked_and_deposit (?L 10) = (Fin (2501999792733409 / 2251799813685248), Fin (7737125245533631 / 77371252455336267181195264))"
    by (rule staked_and_deposit_step [OF s9 _ a9 m9]) simp
  have a10: "js_add (Fin (2501999792733409 / 2251799813685248)) (Fin (7737125245533631 / 77371252455336267181195264)) = Fin (2501999792958589 / 2251799813685248)"
    by (rule js_add_evalI [where k = 52 and m = 5003999585917178]) simp_all
  have m10: "js_mul (Fin (7737125245533631 / 77371252455336267181195264)) ?cf = Fin (6189700196426905 / 618970019642690137449562112)"
    by (rule js_mul_evalI [where k = 89 and m = 6189700196426905]) simp_all
  have s11: "staked_and_deposit (?L 11) = (Fin (2501999792958589 / 2251799813685248), Fin (6189700196426905 / 618970019642690137449562112))"
    by (rule staked_and_deposit_step [OF s10 _ a10 m10]) simp
  have a11: "js_add (Fin (2501999792958589 / 2251799813685248)) (Fin (6189700196426905 / 618970019642690137449562112)) = Fin (2501999792981107 / 2251799813685248)"
    by (rule js_add_evalI [where k = 52 and m = 5003999585962214]) simp_all
  have m11: "js_mul (Fin (6189700196426905 / 618970019642690137449562112)) ?cf = Fin (1237940039285381 / 1237940039285380274899124224)"
    by (rule js_mul_evalI [where k = 92 and m = 4951760157141524]) simp_all
  have s12: "staked_and_deposit (?L 12) = (Fin (2501999792981107 / 2251799813685248), Fin (1237940039285381 / 1237940039285380274899124224))"
    by (rule staked_and_deposit_step [OF s11 _ a11 m11]) simp
  have a12: "js_add (Fin (2501999792981107 / 2251799813685248)) (Fin (1237940039285381 / 1237940039285380274899124224)) = Fin (2501999792983359 / 2251799813685248)"
    by (rule js_add_evalI [where k = 52 and m = 5003999585966718]) simp_all
  have m12: "js_mul (Fin (1237940039285381 / 1237940039285380274899124224)) ?cf = Fin (7922816251426439 / 79228162514264337593543950336)"
    by (rule js_mul_evalI [where k = 96 and m = 7922816251426439]) simp_all
  have s13: "staked_and_deposit (?L 13) = (Fin (2501999792983359 / 2251799813685248), Fin (7922816251426439 / 79228162514264337593543950336))"
    by (rule staked_and_deposit_step [OF s12 _ a12 m12]) simp
  have a13: "js_add (Fin (2501999792983359 / 2251799813685248)) (Fin (7922816251426439 / 79228162514264337593543950336)) = Fin (78187493530737 / 70368744177664)"
    by (rule js_add_evalI [where k = 52 and m = 5003999585967168]) simp_all
  have m13: "js_mul (Fin (7922816251426439 / 79228162514264337593543950336)) ?cf = Fin (198070406285661 / 19807040628566084398385987584)"
    by (rule js_mul_evalI [where k = 99 and m = 6338253001141152]) simp_all
  have s14: "staked_and_deposit (?L 14) = (Fin (78187493530737 / 70368744177664), Fin (198070406285661 / 19807040628566084398385987584))"
    by (rule staked_and_deposit_step [OF s13 _ a13 m13]) simp
  have a14: "js_add (Fin (78187493530737 / 70368744177664)) (Fin (198070406285661 / 19807040628566084398385987584)) = Fin (5003999585967213 / 4503599627370496)"
    by (rule js_add_evalI [where k = 52 and m = 5003999585967213]) simp_all
  have m14: "js_mul (Fin (198070406285661 / 19807040628566084398385987584)) ?cf = Fin (2535301200456461 / 2535301200456458802993406410752)"
    by (rule js_mul_evalI [where k = 102 and m = 5070602400912922]) simp_all
  have s15: "staked_and_deposit (?L 15) = (Fin (5003999585967213 / 4503599627370496), Fin (2535301200456461 / 2535301200456458802993406410752))"
    by (rule staked_and_deposit_step [OF s14 _ a14 m14]) simp
  have a15: "js_add (Fin (5003999585967213 / 4503599627370496)) (Fin (2535301200456461 / 2535301200456458802993406410752)) = Fin (2501999792983609 / 2251799813685248)"
    by (rule js_add_evalI [where k = 52 and m = 5003999585967218]) simp_all
  have m15: "js_mul (Fin (2535301200456461 / 2535301200456458802993406410752)) ?cf = Fin (2028240960365169 / 20282409603651670423947251286016)"
    by (rule js_mul_evalI [where k = 106 and m = 8112963841460676]) simp_all
  have s16: "staked_and_deposit (?L 16) = (Fin (2501999792983609 / 2251799813685248), Fin (2028240960365169 / 20282409603651670423947251286016))"
    by (rule staked_and_deposit_step [OF s15 _ a15 m15]) simp
  have a16: "js_add (Fin (2501999792983609 / 2251799813685248)) (Fin (2028240960365169 / 20282409603651670423947251286016)) = Fin (2501999792983609 / 2251799813685248)"
    by (rule js_add_evalI [where k = 52 and m = 5003999585967218]) simp_all
  have m16: "js_mul (Fin (2028240960365169 / 20282409603651670423947251286016)) ?cf = Fin (6490371073168541 / 649037107316853453566312041152512)"
    by (rule js_mul_evalI [where k = 109 and m = 6490371073168541]) simp_all
  have s17: "staked_and_deposit (?L 17) = (Fin (2501999792983609 / 2251799813685248), Fin (6490371073168541 / 649037107316853453566312041152512))"
    by (rule staked_and_deposit_step [OF s16 _ a16 m16]) simp
  have t2: "fst (?L 2) = Fin (2476979795053773 / 2251799813685248)"
    using s2 by (simp add: staked_and_deposit_def)
  have t16: "fst (?L 16) = Fin (2501999792983609 / 2251799813685248)"
    using s16 by (simp add: staked_and_deposit_def)
  have t17: "fst (?L 17) = Fin (2501999792983609 / 2251799813685248)"
    using s17 by (simp add: staked_and_deposit_def)
  have d: "js_div (Fin (2501999792983609 / 2251799813685248)) (Fin 1)
             = Fin (2501999792983609 / 2251799813685248)"
    by (rule js_div_evalI [where k = 52 and m = 5003999585967218]) simp_all
  have sub: "js_sub (Fin 1) ?cf = Fin (8106479329266893 / 9007199254740992)"
  proof -
    have "js_add (Fin 1) (Fin (- (3602879701896397 / 36028797018963968)))
            = Fin (8106479329266893 / 9007199254740992)"
      by (rule js_add_evalI [where k = 53 and m = 8106479329266893]) simp_all
    then show ?thesis by (simp add: js_sub_def)
  qed
  have mx: "js_div (Fin 1) (Fin (8106479329266893 / 9007199254740992))
              = Fin (2501999792983609 / 2251799813685248)"
    by (rule js_div_evalI [where k = 52 and m = 5003999585967218]) simp_all
  have r2: "LeverageSimulationResult.totalStaked (LeverageEngine_simulate () (demo_input 2))
     = Fin (2476979795053773 / 2251799813685248)"
    using t2 by (simp add: simulate_totalStaked demo_input_def)
  have r16: "LeverageSimulationResult.effectiveLeverage (LeverageEngine_simulate () (demo_input 16))
     = Fin (2501999792983609 / 2251799813685248)"
    using t16 d by (simp add: simulate_effectiveLeverage demo_input_def)
  have r17: "LeverageSimulationResult.effectiveLeverage (LeverageEngine_simulate () (demo_input 17))
     = Fin (2501999792983609 / 2251799813685248)"
    using t17 d by (simp add: simulate_effectiveLeverage demo_input_def)
  have rm: "maxLeverage (LeverageEngine_simulate () (demo_input 17))
     = Fin (2501999792983609 / 2251799813685248)"
    using sub mx by (simp add: simulate_maxLeverage demo_input_def)
  have ne: "(1::rat) * (1 + 3602879701896397 / 36028797018963968)
              \<noteq> 2476979795053773 / 2251799813685248"
    by simp
  show ?thesis using r2 ne r16 r17 rm by blast
qed

text \<open>
  Powers of the rounding factors \<open>1 + 2\<^sup>-\<^sup>5\<^sup>3\<close> and \<open>1 - 2\<^sup>-\<^sup>5\<^sup>3\<close>, and two facts about
  rounding: a rounded value rounds to itself, and a sum of two non-negative doubles is
  the rounded exact sum.
\<close>

lemma pow_one_plus_le:
  fixes x :: rat
  assumes "0 \<le> x" "2 * of_nat m * x \<le> 1"
  shows "(1 + x) ^ m \<le> 1 + 2 * of_nat m * x"
  using assms(2)
proof (induction m)
  case 0
  then show ?case by simp
next
  case (Suc m)
  have mx: "2 * of_nat m * x \<le> 1"
  proof -
    have "2 * of_nat m * x \<le> 2 * of_nat (Suc m) * x"
      using assms(1) by (intro mult_right_mono) simp_all
    then show ?thesis using Suc.prems by linarith
  qed
  then have ih: "(1 + x) ^ m \<le> 1 + 2 * of_nat m * x" by (rule Suc.IH)
  have "(1 + x) ^ Suc m = (1 + x) * (1 + x) ^ m" by simp
  also have "\<dots> \<le> (1 + x) * (1 + 2 * of_nat m * x)"
    using ih assms(1) by (intro mult_left_mono) simp_all
  also have "\<dots> = 1 + 2 * of_nat m * x + x + (2 * of_nat m * x) * x"
    by (simp add: algebra_simps)
  also have "\<dots> \<le> 1 + 2 * of_nat m * x + x + 1 * x"
    using mx assms(1) by (intro add_left_mono mult_right_mono) simp_all
  also have "\<dots> = 1 + 2 * of_nat (Suc m) * x" by (simp add: algebra_simps)
  finally show ?case .
qed

lemma pow_one_minus_ge:
  fixes x :: rat
  assumes "0 \<le> x" "x \<le> 1"
  shows "1 - of_nat m * x \<le> (1 - x) ^ m"
proof (induction m)
  case 0
  then show ?case by simp
next
  case (Suc m)
  have nn: "0 \<le> (1 - x) ^ m" using assms by simp
  show ?case
  proof (cases "0 \<le> 1 - of_nat m * x")
    case True
    have "1 - of_nat (Suc m) * x \<le> 1 - of_nat (Suc m) * x + of_nat m * x * x"
      using assms(1) by simp
    also have "\<dots> = (1 - x) * (1 - of_nat m * x)" by (simp add: algebra_simps)
    also have "\<dots> \<le> (1 - x) * (1 - x) ^ m"
      using Suc.IH assms by (intro mult_left_mono) simp_all
    finally show ?thesis by simp
  next
    case False
    then have "1 - of_nat (Suc m) * x \<le> 0"
      using assms(1) by (simp add: algebra_simps) 
    moreover have "0 \<le> (1 - x) ^ Suc m" using assms by simp
    ultimately show ?thesis by linarith
  qed
qed

lemma eps53_pow_le_2:
  assumes "m \<le> 2 ^ 52"
  shows "(1 + eps53) ^ m \<le> 2"
proof -
  have "(of_nat m :: rat) \<le> of_nat (2 ^ 52)" using assms by (simp only: of_nat_le_iff)
  then have m: "(of_nat m :: rat) \<le> 2 ^ 52" by simp
  have "2 * of_nat m * eps53 \<le> 2 * 2 ^ 52 * eps53"
    using m eps53_bounds(1) by (intro mult_right_mono mult_left_mono) simp_all
  also have "\<dots> = 1" by (simp add: eps53_def)
  finally have c: "2 * of_nat m * eps53 \<le> 1" .
  have "(1 + eps53) ^ m \<le> 1 + 2 * of_nat m * eps53"
    using eps53_bounds(1) c by (intro pow_one_plus_le) simp_all
  then show ?thesis using c by linarith
qed

lemma eps53_pow_ge_half:
  assumes "m \<le> 2 ^ 52"
  shows "1 / 2 \<le> (1 - eps53) ^ m"
proof -
  have "(of_nat m :: rat) \<le> of_nat (2 ^ 52)" using assms by (simp only: of_nat_le_iff)
  then have m: "(of_nat m :: rat) \<le> 2 ^ 52" by simp
  have "of_nat m * eps53 \<le> 2 ^ 52 * eps53"
    using m eps53_bounds(1) by (intro mult_right_mono) simp_all
  also have "\<dots> = 1 / 2" by (simp add: eps53_def)
  finally have c: "of_nat m * eps53 \<le> 1 / 2" .
  have "1 - of_nat m * eps53 \<le> (1 - eps53) ^ m"
    using eps53_bounds by (intro pow_one_minus_ge) simp_all
  then show ?thesis using c by linarith
qed

lemma ilog2_powi: "ilog2 (2 powi k) = k"
proof (rule ilog2_unique)
  show "(2::rat) powi k \<le> 2 powi k" by simp
  have "(2::rat) powi (k + 1) = 2 powi k * 2" by (simp add: power_int_add)
  then show "(2::rat) powi k < 2 powi (k + 1)" using powi_pos [of k] by simp
qed

lemma round64_idem:
  assumes "0 \<le> x"
  shows "round64 (round64 x) = round64 x"
proof (cases "x = 0 \<or> round64 x = 0")
  case True
  then show ?thesis by (auto simp: round64_0)
next
  case False
  then have x0: "0 < x" and y0: "round64 x \<noteq> 0" using assms by auto
  define y where "y = round64 x"
  define e where "e = fexp x"
  have ypos: "0 < y" using y0 round64_nonneg [OF assms] by (simp add: y_def)
  have e_lo: "- 1022 \<le> e" by (simp add: e_def fexp_def)
  have yk: "y = of_int (rne (x / 2 powi (e - 52))) * 2 powi (e - 52)"
    using x0 by (simp add: y_def e_def round64_def Let_def)
  have up: "y \<le> 2 powi (e + 1)" using round64_upper [OF x0] by (simp add: y_def e_def)
  show ?thesis
  proof (cases "y = 2 powi (e + 1)")
    case True
    have f: "fexp y = e + 1"
      using e_lo powi_pos [of "e + 1"] by (simp add: True fexp_def ilog2_powi)
    have "round64 y = y"
    proof (rule round64_grid [where k = 1 and j = "e + 1"])
      show "y \<noteq> 0" using ypos by simp
      show "y = of_int 1 * 2 powi (e + 1)" using True by simp
      show "fexp y - 52 \<le> e + 1" using f by simp
    qed
    then show ?thesis by (simp add: y_def)
  next
    case False
    then have "y < 2 powi (e + 1)" using up by simp
    then have "ilog2 y < e + 1" using ypos by (intro ilog2_less)
    then have f: "fexp y \<le> e" using e_lo ypos by (simp add: fexp_def)
    have "round64 y = y"
    proof (rule round64_grid [where k = "rne (x / 2 powi (e - 52))" and j = "e - 52"])
      show "y \<noteq> 0" using ypos by simp
      show "y = of_int (rne (x / 2 powi (e - 52))) * 2 powi (e - 52)" by (rule yk)
      show "fexp y - 52 \<le> e - 52" using f by simp
    qed
    then show ?thesis by (simp add: y_def)
  qed
qed

lemma js_add_pos:
  assumes "0 \<le> a" "0 \<le> b" "0 < a + b" "a + b \<le> 2 powi 1023"
  shows "js_add (Fin a) (Fin b) = Fin (round64 (a + b))"
proof -
  have "js_round (a + b) = Fin (round64 (a + b))" using assms by (intro js_round_Fin) simp_all
  then show ?thesis using assms(3) by (simp add: js_add_def)
qed

lemma round64_up:
  assumes "2 powi (- 1022) \<le> x"
  shows "round64 x \<le> x * (1 + eps53)"
  using round64_upper_rel [OF assms] by (simp add: eps53_def)

lemma round64_lo:
  assumes "2 powi (- 1022) \<le> x"
  shows "x * (1 - eps53) \<le> round64 x"
  using round64_lower_rel [OF assms] by (simp add: eps53_def)

text \<open>The geometric sum \<open>1 + f + ... + f\<^sup>n\<^sup>-\<^sup>1\<close>, in exact arithmetic.\<close>

definition geometric_sum :: "rat \<Rightarrow> nat \<Rightarrow> rat" where
  "geometric_sum f n = (\<Sum>i<n. f ^ i)"

lemma geometric_sum_0 [simp]: "geometric_sum f 0 = 0"
  by (simp add: geometric_sum_def)

lemma geometric_sum_Suc [simp]: "geometric_sum f (Suc n) = geometric_sum f n + f ^ n"
  by (simp add: geometric_sum_def)

lemma geometric_sum_nonneg: "0 \<le> f \<Longrightarrow> 0 \<le> geometric_sum f n"
  by (induction n) simp_all

lemma geometric_sum_le: "0 \<le> f \<Longrightarrow> f \<le> 1 \<Longrightarrow> geometric_sum f n \<le> of_nat n"
proof (induction n)
  case 0
  then show ?case by simp
next
  case (Suc n)
  have "f ^ n \<le> 1" using Suc.prems by (simp add: power_le_one)
  then show ?case using Suc by simp
qed

lemma geometric_sum_ge_1: "0 \<le> f \<Longrightarrow> 1 \<le> n \<Longrightarrow> 1 \<le> geometric_sum f n"
proof (induction n)
  case 0
  then show ?case by simp
next
  case (Suc n)
  show ?case
  proof (cases n)
    case 0
    then show ?thesis by simp
  next
    case (Suc k)
    then have "1 \<le> geometric_sum f n" using Suc.IH \<open>0 \<le> f\<close> by simp
    moreover have "0 \<le> f ^ n" using \<open>0 \<le> f\<close> by simp
    ultimately show ?thesis by simp
  qed
qed

lemma geometric_sum_closed: "(1 - f) * geometric_sum f n = 1 - f ^ n"
proof (induction n)
  case 0
  then show ?case by simp
next
  case (Suc n)
  have "(1 - f) * geometric_sum f (Suc n) = (1 - f) * geometric_sum f n + (1 - f) * f ^ n"
    by (simp add: distrib_left)
  also have "\<dots> = 1 - f ^ n + (1 - f) * f ^ n" using Suc.IH by simp
  also have "\<dots> = 1 - f ^ Suc n" by (simp add: left_diff_distrib)
  finally show ?case .
qed

lemma sum_up0:
  fixes a b A B u :: rat
  assumes "a \<le> A * u ^ i" "b \<le> B * u ^ j" "i \<le> m" "j \<le> m" "0 \<le> A" "0 \<le> B" "1 \<le> u"
  shows "a + b \<le> (A + B) * u ^ m"
proof -
  have "u ^ i \<le> u ^ m" using assms(3,7) by (rule power_increasing)
  then have "A * u ^ i \<le> A * u ^ m" using assms(5) by (rule mult_left_mono)
  moreover have "u ^ j \<le> u ^ m" using assms(4,7) by (rule power_increasing)
  then have "B * u ^ j \<le> B * u ^ m" using assms(6) by (rule mult_left_mono)
  ultimately have "a + b \<le> A * u ^ m + B * u ^ m" using assms(1,2) by linarith
  then show ?thesis by (simp add: algebra_simps)
qed

lemma sum_up:
  fixes a b A B u r :: rat
  assumes "a \<le> A * u ^ i" "b \<le> B * u ^ j" "i \<le> m" "j \<le> m" "0 \<le> A" "0 \<le> B" "1 \<le> u"
    and "r \<le> (a + b) * u"
  shows "r \<le> (A + B) * u ^ Suc m"
proof -
  have "a + b \<le> (A + B) * u ^ m" using assms(1-7) by (rule sum_up0)
  then have "(a + b) * u \<le> (A + B) * u ^ m * u"
    using assms(7) by (intro mult_right_mono) simp_all
  then show ?thesis using assms(8) by (simp add: algebra_simps)
qed

lemma sum_lo:
  fixes a b A B l r :: rat
  assumes "A * l ^ i \<le> a" "B * l ^ j \<le> b" "i \<le> m" "j \<le> m" "0 \<le> A" "0 \<le> B"
    and "0 \<le> l" "l \<le> 1" "(a + b) * l \<le> r"
  shows "(A + B) * l ^ Suc m \<le> r"
proof -
  have "l ^ m \<le> l ^ i" using assms(3,7,8) by (intro power_decreasing)
  then have "A * l ^ m \<le> A * l ^ i" using assms(5) by (rule mult_left_mono)
  moreover have "l ^ m \<le> l ^ j" using assms(4,7,8) by (intro power_decreasing)
  then have "B * l ^ m \<le> B * l ^ j" using assms(6) by (rule mult_left_mono)
  ultimately have "A * l ^ m + B * l ^ m \<le> a + b" using assms(1,2) by linarith
  then have "(A + B) * l ^ m \<le> a + b" by (simp add: algebra_simps)
  then have "(A + B) * l ^ m * l \<le> (a + b) * l"
    using assms(7) by (intro mult_right_mono)
  then show ?thesis using assms(9) by (simp add: algebra_simps)
qed

lemma prod_up:
  fixes a A f u r :: rat
  assumes "a \<le> A * u ^ i" "0 \<le> f" "0 \<le> u" "r \<le> a * f * u"
  shows "r \<le> A * f * u ^ Suc i"
proof -
  have "a * f \<le> A * u ^ i * f" using assms(1,2) by (rule mult_right_mono)
  then have "a * f * u \<le> A * u ^ i * f * u" using assms(3) by (rule mult_right_mono)
  then show ?thesis using assms(4) by (simp add: algebra_simps)
qed

lemma prod_lo:
  fixes a A f l r :: rat
  assumes "A * l ^ i \<le> a" "0 \<le> f" "0 \<le> l" "a * f * l \<le> r"
  shows "A * f * l ^ Suc i \<le> r"
proof -
  have "A * l ^ i * f \<le> a * f" using assms(1,2) by (rule mult_right_mono)
  then have "A * l ^ i * f * l \<le> a * f * l" using assms(3) by (rule mult_right_mono)
  then show ?thesis using assms(4) by (simp add: algebra_simps)
qed

text \<open>The conditions under which no operation of the first \<open>n\<close> loops underflows or overflows.\<close>

lemma underflow_mono:
  fixes p f :: rat
  assumes "0 < f" "f < 1" "0 < p"
    and "2 powi (- 1022) \<le> p * f ^ Suc n * (1 - eps53) ^ Suc n"
  shows "2 powi (- 1022) \<le> p * f ^ n * (1 - eps53) ^ n"
proof -
  have l: "0 \<le> 1 - eps53" "1 - eps53 \<le> 1" using eps53_bounds by simp_all
  have nn: "0 \<le> p * f ^ n * (1 - eps53) ^ n" using assms(1,3) l by simp
  have "f * (1 - eps53) \<le> 1 * 1" using assms(1,2) l by (intro mult_mono) simp_all
  then have "p * f ^ n * (1 - eps53) ^ n * (f * (1 - eps53)) \<le> p * f ^ n * (1 - eps53) ^ n * 1"
    using nn by (intro mult_left_mono) simp_all
  moreover have "p * f ^ Suc n * (1 - eps53) ^ Suc n
                   = p * f ^ n * (1 - eps53) ^ n * (f * (1 - eps53))"
    by simp
  ultimately show ?thesis using assms(4) by linarith
qed

lemma overflow_mono:
  fixes p f :: rat
  assumes "0 < f" "0 < p"
    and "p * (geometric_sum f (Suc n) + f ^ Suc n) * (1 + eps53) ^ (2 * Suc n) \<le> 2 powi 1023"
  shows "p * (geometric_sum f n + f ^ n) * (1 + eps53) ^ (2 * n) \<le> 2 powi 1023"
proof -
  have u: "1 \<le> 1 + eps53" using eps53_bounds by simp
  have f0: "0 \<le> f" using assms(1) by simp
  have 1: "(1 + eps53) ^ (2 * n) \<le> (1 + eps53) ^ (2 * Suc n)"
    using u by (intro power_increasing) simp_all
  have "geometric_sum f n + f ^ n \<le> geometric_sum f (Suc n) + f ^ Suc n"
    using f0 by simp
  then have 2: "p * (geometric_sum f n + f ^ n) \<le> p * (geometric_sum f (Suc n) + f ^ Suc n)"
    using assms(2) by (intro mult_left_mono) simp_all
  have "0 \<le> geometric_sum f (Suc n) + f ^ Suc n"
    using f0 geometric_sum_nonneg [of f "Suc n"] by (intro add_nonneg_nonneg) simp_all
  then have 3: "0 \<le> p * (geometric_sum f (Suc n) + f ^ Suc n)"
    using assms(2) by (intro mult_nonneg_nonneg) simp_all
  have 4: "0 \<le> (1 + eps53) ^ (2 * n)" using u by simp
  have "p * (geometric_sum f n + f ^ n) * (1 + eps53) ^ (2 * n)
      \<le> p * (geometric_sum f (Suc n) + f ^ Suc n) * (1 + eps53) ^ (2 * Suc n)"
    using 2 1 3 4 by (rule mult_mono)
  then show ?thesis using assms(3) by linarith
qed

text \<open>
  One pass of the loop body keeps the three running values within the rounding error
  of their exact counterparts, and does not lower the total staked.
\<close>

lemma leverage_step_bounds:
  fixes p f ts tb cd :: rat
  assumes f: "0 < f" "f < 1" and p: "0 < p"
    and U: "2 powi (- 1022) \<le> p * f ^ Suc n * (1 - eps53) ^ Suc n"
    and O: "p * (geometric_sum f (Suc n) + f ^ Suc n) * (1 + eps53) ^ (2 * Suc n) \<le> 2 powi 1023"
    and r: "round64 ts = ts"
    and cd: "p * f ^ n * (1 - eps53) ^ n \<le> cd" "cd \<le> p * f ^ n * (1 + eps53) ^ n"
    and ts: "p * geometric_sum f n * (1 - eps53) ^ (2 * n) \<le> ts"
            "ts \<le> p * geometric_sum f n * (1 + eps53) ^ (2 * n)"
    and tb: "p * (f * geometric_sum f n) * (1 - eps53) ^ (2 * n) \<le> tb"
            "tb \<le> p * (f * geometric_sum f n) * (1 + eps53) ^ (2 * n)"
  shows "\<exists>ts' tb' cd' ds'.
       leverage_step (Fin f) (Fin ts, Fin tb, Fin cd, ds) i = (Fin ts', Fin tb', Fin cd', ds') \<and>
       round64 ts' = ts' \<and> ts \<le> ts' \<and>
       p * f ^ Suc n * (1 - eps53) ^ Suc n \<le> cd' \<and>
       cd' \<le> p * f ^ Suc n * (1 + eps53) ^ Suc n \<and>
       p * geometric_sum f (Suc n) * (1 - eps53) ^ (2 * Suc n) \<le> ts' \<and>
       ts' \<le> p * geometric_sum f (Suc n) * (1 + eps53) ^ (2 * Suc n) \<and>
       p * (f * geometric_sum f (Suc n)) * (1 - eps53) ^ (2 * Suc n) \<le> tb' \<and>
       tb' \<le> p * (f * geometric_sum f (Suc n)) * (1 + eps53) ^ (2 * Suc n)"
proof -
  define l where "l = 1 - eps53"
  define u where "u = 1 + eps53"
  define S where "S = geometric_sum f n"
  define P where "P = p * f ^ n"
  have l: "0 < l" "l \<le> 1" "0 \<le> l" using eps53_bounds by (simp_all add: l_def)
  have u: "1 \<le> u" "0 \<le> u" using eps53_bounds by (simp_all add: u_def)
  have f0: "0 \<le> f" "f \<le> 1" using f by simp_all
  have S0: "0 \<le> S" using f0 by (simp add: S_def geometric_sum_nonneg)
  have P0: "0 < P" "0 \<le> P" using p f by (simp_all add: P_def)
  have e2: "Suc (2 * n + 1) = 2 * Suc n" by simp
  have Un: "2 powi (- 1022) \<le> P * l ^ n"
    unfolding P_def l_def by (rule underflow_mono [OF f p U])
  have On: "p * (S + f ^ n) * u ^ (2 * n) \<le> 2 powi 1023"
    unfolding S_def u_def by (rule overflow_mono [OF f(1) p O])
  have Us: "2 powi (- 1022) \<le> P * f * l ^ Suc n"
  proof -
    have "P * f * l ^ Suc n = p * f ^ Suc n * (1 - eps53) ^ Suc n"
      by (simp add: P_def l_def)
    then show ?thesis using U by linarith
  qed
  have Os: "p * (S + f ^ n + f ^ Suc n) * u ^ (2 * Suc n) \<le> 2 powi 1023"
    unfolding S_def u_def using O by (simp only: geometric_sum_Suc)
  have cdl: "P * l ^ n \<le> cd" using cd(1) by (simp add: P_def l_def)
  have cdu: "cd \<le> P * u ^ n" using cd(2) by (simp add: P_def u_def)
  have tsl: "p * S * l ^ (2 * n) \<le> ts" using ts(1) by (simp add: S_def l_def)
  have tsu: "ts \<le> p * S * u ^ (2 * n)" using ts(2) by (simp add: S_def u_def)
  have tbl: "p * (f * S) * l ^ (2 * n) \<le> tb" using tb(1) by (simp add: S_def l_def)
  have tbu: "tb \<le> p * (f * S) * u ^ (2 * n)" using tb(2) by (simp add: S_def u_def)
  have pS0: "0 \<le> p * S" using p S0 by simp
  have pfS0: "0 \<le> p * (f * S)" using p S0 f0 by simp
  have Pf0: "0 \<le> P * f" using P0 f0 by simp
  have ts0: "0 \<le> ts"
  proof -
    have "0 \<le> p * S * l ^ (2 * n)" using pS0 l by simp
    then show ?thesis using tsl by linarith
  qed
  have tb0: "0 \<le> tb"
  proof -
    have "0 \<le> p * (f * S) * l ^ (2 * n)" using pfS0 l by simp
    then show ?thesis using tbl by linarith
  qed
  have cdn: "2 powi (- 1022) \<le> cd" using Un cdl by linarith
  have cdpos: "0 < cd" using cdn powi_pos [of "- 1022"] by linarith
  \<comment> \<open>totalStaked += currentDeposit\<close>
  define x1 where "x1 = ts + cd"
  have x1lo: "2 powi (- 1022) \<le> x1" unfolding x1_def using cdn ts0 by linarith
  have x1up0: "x1 \<le> (p * S + P) * u ^ (2 * n)"
    unfolding x1_def using tsu cdu _ _ pS0 P0(2) u(1) by (rule sum_up0) simp_all
  have "(p * S + P) = p * (S + f ^ n)" by (simp add: P_def algebra_simps)
  then have "x1 \<le> p * (S + f ^ n) * u ^ (2 * n)" using x1up0 by (simp only:)
  then have x1up: "x1 \<le> 2 powi 1023" using On by linarith
  have x1pos: "0 < x1" using x1lo powi_pos [of "- 1022"] by linarith
  have cd0: "0 \<le> cd" using cdpos by simp
  have add1: "js_add (Fin ts) (Fin cd) = Fin (round64 x1)"
    unfolding x1_def by (rule js_add_pos [OF ts0 cd0 x1pos [unfolded x1_def] x1up [unfolded x1_def]])
  define ts' where "ts' = round64 x1"
  have r1u: "ts' \<le> (ts + cd) * u" using round64_up [OF x1lo] by (simp add: ts'_def x1_def u_def)
  have r1l: "(ts + cd) * l \<le> ts'" using round64_lo [OF x1lo] by (simp add: ts'_def x1_def l_def)
  have "ts' \<le> (p * S + P) * u ^ Suc (2 * n + 1)"
    using tsu cdu _ _ pS0 P0(2) u(1) r1u by (rule sum_up) simp_all
  moreover have "p * S + P = p * geometric_sum f (Suc n)" by (simp add: P_def S_def algebra_simps)
  ultimately have ts'u: "ts' \<le> p * geometric_sum f (Suc n) * (1 + eps53) ^ (2 * Suc n)"
    by (simp only: e2 u_def)
  have "(p * S + P) * l ^ Suc (2 * n + 1) \<le> ts'"
    using tsl cdl _ _ pS0 P0(2) l(3) l(2) r1l by (rule sum_lo) simp_all
  moreover have "p * S + P = p * geometric_sum f (Suc n)" by (simp add: P_def S_def algebra_simps)
  ultimately have ts'l: "p * geometric_sum f (Suc n) * (1 - eps53) ^ (2 * Suc n) \<le> ts'"
    by (simp only: e2 l_def)
  have idem: "round64 ts' = ts'" unfolding ts'_def using x1pos by (intro round64_idem) simp
  have mono: "ts \<le> ts'"
  proof -
    have "round64 ts \<le> round64 x1" using cdpos by (intro round64_mono) (simp add: x1_def)
    then show ?thesis using r by (simp add: ts'_def)
  qed
  \<comment> \<open>borrowed = currentDeposit * collateralFactor\<close>
  define x2 where "x2 = cd * f"
  have x2lo: "2 powi (- 1022) \<le> x2"
  proof -
    have "P * l ^ n * f \<le> cd * f" using cdl f0 by (intro mult_right_mono) simp_all
    moreover have "P * l ^ n * f * l \<le> P * l ^ n * f * 1"
      using l P0 f0 by (intro mult_left_mono) simp_all
    moreover have "P * f * l ^ Suc n = P * l ^ n * f * l" by simp
    ultimately show ?thesis unfolding x2_def using Us by linarith
  qed
  have x2up: "x2 \<le> 2 powi 1023"
  proof -
    have "cd * f \<le> cd * 1" using cdpos f0 by (intro mult_left_mono) simp_all
    then show ?thesis using x1up ts0 unfolding x2_def x1_def by linarith
  qed
  have mul: "js_mul (Fin cd) (Fin f) = Fin (round64 x2)"
    unfolding x2_def by (rule js_mul_pos [OF cdpos f(1) x2up [unfolded x2_def]])
  define cd' where "cd' = round64 x2"
  have r2u: "cd' \<le> cd * f * u" using round64_up [OF x2lo] by (simp add: cd'_def x2_def u_def)
  have r2l: "cd * f * l \<le> cd'" using round64_lo [OF x2lo] by (simp add: cd'_def x2_def l_def)
  have cd'u0: "cd' \<le> P * f * u ^ Suc n" using cdu f0(1) u(2) r2u by (rule prod_up)
  have cd'l0: "P * f * l ^ Suc n \<le> cd'" using cdl f0(1) l(3) r2l by (rule prod_lo)
  have Pf: "P * f = p * f ^ Suc n" by (simp add: P_def)
  have cd'u: "cd' \<le> p * f ^ Suc n * (1 + eps53) ^ Suc n" using cd'u0 by (simp only: Pf u_def)
  have cd'l: "p * f ^ Suc n * (1 - eps53) ^ Suc n \<le> cd'" using cd'l0 by (simp only: Pf l_def)
  have cd'n: "2 powi (- 1022) \<le> cd'" using cd'l0 Us by linarith
  have cd'pos: "0 < cd'" using cd'n powi_pos [of "- 1022"] by linarith
  \<comment> \<open>totalBorrowed += borrowed\<close>
  define x3 where "x3 = tb + cd'"
  have x3lo: "2 powi (- 1022) \<le> x3" unfolding x3_def using cd'n tb0 by linarith
  have x3pos: "0 < x3" using x3lo powi_pos [of "- 1022"] by linarith
  have x3up0: "x3 \<le> (p * (f * S) + P * f) * u ^ (2 * n + 1)"
    unfolding x3_def using tbu cd'u0 _ _ pfS0 Pf0 u(1) by (rule sum_up0) simp_all
  have x3up: "x3 \<le> 2 powi 1023"
  proof -
    have a: "p * (f * S) + P * f = p * (f * (S + f ^ n))" by (simp add: P_def algebra_simps)
    have "f * (S + f ^ n) \<le> 1 * (S + f ^ n)"
      using f0 S0 by (intro mult_right_mono) simp_all
    also have "\<dots> \<le> S + f ^ n + f ^ Suc n" using f0 by simp
    finally have "p * (f * (S + f ^ n)) \<le> p * (S + f ^ n + f ^ Suc n)"
      using p by (intro mult_left_mono) simp_all
    moreover have "u ^ (2 * n + 1) \<le> u ^ (2 * Suc n)" using u(1) by (intro power_increasing) simp_all
    moreover have "0 \<le> p * (S + f ^ n + f ^ Suc n)" using p S0 f0 by simp
    moreover have "0 \<le> u ^ (2 * n + 1)" using u by simp
    ultimately have "p * (f * (S + f ^ n)) * u ^ (2 * n + 1)
        \<le> p * (S + f ^ n + f ^ Suc n) * u ^ (2 * Suc n)"
      by (rule mult_mono)
    moreover have "x3 \<le> p * (f * (S + f ^ n)) * u ^ (2 * n + 1)" using x3up0 by (simp only: a)
    ultimately show ?thesis using Os by linarith
  qed
  have cd'0: "0 \<le> cd'" using cd'pos by simp
  have add3: "js_add (Fin tb) (Fin cd') = Fin (round64 x3)"
    unfolding x3_def by (rule js_add_pos [OF tb0 cd'0 x3pos [unfolded x3_def] x3up [unfolded x3_def]])
  define tb' where "tb' = round64 x3"
  have r3u: "tb' \<le> (tb + cd') * u" using round64_up [OF x3lo] by (simp add: tb'_def x3_def u_def)
  have r3l: "(tb + cd') * l \<le> tb'" using round64_lo [OF x3lo] by (simp add: tb'_def x3_def l_def)
  have b: "p * (f * S) + P * f = p * (f * geometric_sum f (Suc n))"
    by (simp add: P_def S_def algebra_simps)
  have "tb' \<le> (p * (f * S) + P * f) * u ^ Suc (2 * n + 1)"
    using tbu cd'u0 _ _ pfS0 Pf0 u(1) r3u by (rule sum_up) simp_all
  then have tb'u: "tb' \<le> p * (f * geometric_sum f (Suc n)) * (1 + eps53) ^ (2 * Suc n)"
    by (simp only: b e2 u_def)
  have "(p * (f * S) + P * f) * l ^ Suc (2 * n + 1) \<le> tb'"
    using tbl cd'l0 _ _ pfS0 Pf0 l(3) l(2) r3l by (rule sum_lo) simp_all
  then have tb'l: "p * (f * geometric_sum f (Suc n)) * (1 - eps53) ^ (2 * Suc n) \<le> tb'"
    by (simp only: b e2 l_def)
  have step: "leverage_step (Fin f) (Fin ts, Fin tb, Fin cd, ds) i =
      (Fin ts', Fin tb', Fin cd',
       ds @ [\<lparr>loop = Fin (of_nat (i + 1)), deposited = Fin cd, borrowed = Fin cd',
               totalStaked = Fin ts', totalBorrowed = Fin tb'\<rparr>])"
    using add1 mul add3 by (simp add: leverage_step_def Let_def ts'_def cd'_def tb'_def)
  show ?thesis
    using step idem mono cd'l cd'u ts'l ts'u tb'l tb'u by blast
qed

lemma leverage_loop_bounds:
  fixes p f :: rat
  assumes "0 < f" "f < 1" "0 < p"
    and "2 powi (- 1022) \<le> p * f ^ n * (1 - eps53) ^ n"
    and "p * (geometric_sum f n + f ^ n) * (1 + eps53) ^ (2 * n) \<le> 2 powi 1023"
  shows "\<exists>ts tb cd ds.
       leverage_loop (Fin p) (Fin f) n = (Fin ts, Fin tb, Fin cd, ds) \<and>
       round64 ts = ts \<and>
       p * f ^ n * (1 - eps53) ^ n \<le> cd \<and>
       cd \<le> p * f ^ n * (1 + eps53) ^ n \<and>
       p * geometric_sum f n * (1 - eps53) ^ (2 * n) \<le> ts \<and>
       ts \<le> p * geometric_sum f n * (1 + eps53) ^ (2 * n) \<and>
       p * (f * geometric_sum f n) * (1 - eps53) ^ (2 * n) \<le> tb \<and>
       tb \<le> p * (f * geometric_sum f n) * (1 + eps53) ^ (2 * n)"
  using assms(4,5)
proof (induction n)
  case 0
  have "leverage_loop (Fin p) (Fin f) 0 = (Fin 0, Fin 0, Fin p, [])"
    by (simp add: leverage_loop_def)
  then show ?case by (simp add: round64_0)
next
  case (Suc n)
  have U: "2 powi (- 1022) \<le> p * f ^ n * (1 - eps53) ^ n"
    using assms(1-3) Suc.prems(1) by (rule underflow_mono)
  have O: "p * (geometric_sum f n + f ^ n) * (1 + eps53) ^ (2 * n) \<le> 2 powi 1023"
    using assms(1,3) Suc.prems(2) by (rule overflow_mono)
  obtain ts tb cd ds where st: "leverage_loop (Fin p) (Fin f) n = (Fin ts, Fin tb, Fin cd, ds)"
    and inv: "round64 ts = ts"
      "p * f ^ n * (1 - eps53) ^ n \<le> cd" "cd \<le> p * f ^ n * (1 + eps53) ^ n"
      "p * geometric_sum f n * (1 - eps53) ^ (2 * n) \<le> ts"
      "ts \<le> p * geometric_sum f n * (1 + eps53) ^ (2 * n)"
      "p * (f * geometric_sum f n) * (1 - eps53) ^ (2 * n) \<le> tb"
      "tb \<le> p * (f * geometric_sum f n) * (1 + eps53) ^ (2 * n)"
    using Suc.IH [OF U O] by blast
  obtain ts' tb' cd' ds' where
    step: "leverage_step (Fin f) (Fin ts, Fin tb, Fin cd, ds) n = (Fin ts', Fin tb', Fin cd', ds')"
    and inv': "round64 ts' = ts'"
      "p * f ^ Suc n * (1 - eps53) ^ Suc n \<le> cd'"
      "cd' \<le> p * f ^ Suc n * (1 + eps53) ^ Suc n"
      "p * geometric_sum f (Suc n) * (1 - eps53) ^ (2 * Suc n) \<le> ts'"
      "ts' \<le> p * geometric_sum f (Suc n) * (1 + eps53) ^ (2 * Suc n)"
      "p * (f * geometric_sum f (Suc n)) * (1 - eps53) ^ (2 * Suc n) \<le> tb'"
      "tb' \<le> p * (f * geometric_sum f (Suc n)) * (1 + eps53) ^ (2 * Suc n)"
    using leverage_step_bounds [OF assms(1-3) Suc.prems(1,2) inv, of ds n] by blast
  have "leverage_loop (Fin p) (Fin f) (Suc n) = (Fin ts', Fin tb', Fin cd', ds')"
    using st step by (simp only: leverage_loop_Suc)
  then show ?case using inv' by blast
qed

text \<open>One more loop does not lower the total staked.\<close>

lemma leverage_loop_staked_mono:
  fixes p f :: rat
  assumes "0 < f" "f < 1" "0 < p"
    and "2 powi (- 1022) \<le> p * f ^ Suc n * (1 - eps53) ^ Suc n"
    and "p * (geometric_sum f (Suc n) + f ^ Suc n) * (1 + eps53) ^ (2 * Suc n) \<le> 2 powi 1023"
    and "fst (leverage_loop (Fin p) (Fin f) n) = Fin ts"
    and "fst (leverage_loop (Fin p) (Fin f) (Suc n)) = Fin ts'"
  shows "ts \<le> ts'"
proof -
  have U: "2 powi (- 1022) \<le> p * f ^ n * (1 - eps53) ^ n"
    using assms(1-4) by (rule underflow_mono)
  have O: "p * (geometric_sum f n + f ^ n) * (1 + eps53) ^ (2 * n) \<le> 2 powi 1023"
    using assms(1,3,5) by (rule overflow_mono)
  obtain t0 tb cd ds where st: "leverage_loop (Fin p) (Fin f) n = (Fin t0, Fin tb, Fin cd, ds)"
    and inv: "round64 t0 = t0"
      "p * f ^ n * (1 - eps53) ^ n \<le> cd" "cd \<le> p * f ^ n * (1 + eps53) ^ n"
      "p * geometric_sum f n * (1 - eps53) ^ (2 * n) \<le> t0"
      "t0 \<le> p * geometric_sum f n * (1 + eps53) ^ (2 * n)"
      "p * (f * geometric_sum f n) * (1 - eps53) ^ (2 * n) \<le> tb"
      "tb \<le> p * (f * geometric_sum f n) * (1 + eps53) ^ (2 * n)"
    using leverage_loop_bounds [OF assms(1-3) U O] by blast
  obtain t1 tb' cd' ds' where
    step: "leverage_step (Fin f) (Fin t0, Fin tb, Fin cd, ds) n = (Fin t1, Fin tb', Fin cd', ds')"
    and le: "t0 \<le> t1"
    using leverage_step_bounds [OF assms(1-5) inv, of ds n] by blast
  have "leverage_loop (Fin p) (Fin f) (Suc n) = (Fin t1, Fin tb', Fin cd', ds')"
    using st step by (simp only: leverage_loop_Suc)
  then have "t1 = ts'" using assms(7) by simp
  moreover have "t0 = ts" using st assms(6) by simp
  ultimately show ?thesis using le by simp
qed

text \<open>Simple conditions that keep every operation of \<open>n\<close> loops in the normal range.\<close>

lemma powi_m1021: "(2::rat) powi (- 1021) = 2 * 2 powi (- 1022)"
proof -
  have "(2::rat) powi (- 1022 + 1) = 2 powi (- 1022) * 2 powi 1"
    by (rule power_int_add) simp
  then show ?thesis by simp
qed

lemma powi_1023: "(2::rat) powi 1023 = 4 * 2 powi 1021"
proof -
  have "(2::rat) powi (1021 + 2) = 2 powi 1021 * 2 powi 2"
    by (rule power_int_add) simp
  then show ?thesis by simp
qed

lemma no_underflow:
  fixes p f :: rat
  assumes "0 < f" "n \<le> 2 ^ 52" "2 powi (- 1021) \<le> p * f ^ n"
  shows "2 powi (- 1022) \<le> p * f ^ n * (1 - eps53) ^ n"
proof -
  have h: "1 / 2 \<le> (1 - eps53) ^ n" using assms(2) by (rule eps53_pow_ge_half)
  have nn: "0 \<le> p * f ^ n" using assms(3) powi_pos [of "- 1021"] by linarith
  have "p * f ^ n * (1 / 2) \<le> p * f ^ n * (1 - eps53) ^ n"
    using h nn by (rule mult_left_mono)
  moreover have "2 powi (- 1022) \<le> p * f ^ n * (1 / 2)"
    using assms(3) unfolding powi_m1021 by linarith
  ultimately show ?thesis by linarith
qed

lemma no_overflow:
  fixes p f :: rat
  assumes "0 < f" "f < 1" "0 < p" "1 \<le> n" "2 * n \<le> 2 ^ 52" "p * of_nat n \<le> 2 powi 1021"
  shows "p * (geometric_sum f n + f ^ n) * (1 + eps53) ^ (2 * n) \<le> 2 powi 1023"
proof -
  have u: "(1 + eps53) ^ (2 * n) \<le> 2" using assms(5) by (rule eps53_pow_le_2)
  have u0: "0 \<le> (1 + eps53) ^ (2 * n)" using eps53_bounds by simp
  have s: "geometric_sum f n \<le> of_nat n" using assms(1,2) by (intro geometric_sum_le) simp_all
  have "f ^ n \<le> 1" using assms(1,2) by (simp add: power_le_one)
  moreover have "(1::rat) \<le> of_nat n" using assms(4) by simp
  ultimately have g: "geometric_sum f n + f ^ n \<le> 2 * of_nat n" using s by linarith
  have g0: "0 \<le> geometric_sum f n + f ^ n"
    using assms(1) geometric_sum_nonneg [of f n] by (intro add_nonneg_nonneg) simp_all
  have "(geometric_sum f n + f ^ n) * (1 + eps53) ^ (2 * n) \<le> (2 * of_nat n) * 2"
    using g u _ u0 by (rule mult_mono) simp
  then have "p * ((geometric_sum f n + f ^ n) * (1 + eps53) ^ (2 * n)) \<le> p * ((2 * of_nat n) * 2)"
    using assms(3) by (intro mult_left_mono) simp_all
  then have "p * (geometric_sum f n + f ^ n) * (1 + eps53) ^ (2 * n) \<le> 4 * (p * of_nat n)"
    by (simp add: algebra_simps)
  then show ?thesis using assms(6) unfolding powi_1023 by linarith
qed

text \<open>
  The sums of the claim, in exact arithmetic: the sum of \<open>cf\<^sup>i\<close> for \<open>i\<close> from \<open>0\<close> to
  \<open>loops - 1\<close> for the effective leverage, the principal times it for the total staked,
  and the principal times the sum of \<open>cf\<^sup>i\<close> for \<open>i\<close> from \<open>1\<close> to \<open>loops\<close> for the total
  borrowed.
\<close>

definition spec_effectiveLeverage :: "rat \<Rightarrow> nat \<Rightarrow> rat" where
  "spec_effectiveLeverage cf n = (\<Sum>i = 0..<n. cf ^ i)"

definition spec_totalStaked :: "rat \<Rightarrow> rat \<Rightarrow> nat \<Rightarrow> rat" where
  "spec_totalStaked p cf n = p * (\<Sum>i = 0..<n. cf ^ i)"

definition spec_totalBorrowed :: "rat \<Rightarrow> rat \<Rightarrow> nat \<Rightarrow> rat" where
  "spec_totalBorrowed p cf n = p * (\<Sum>i = 1..n. cf ^ i)"

lemma spec_effectiveLeverage_geometric: "spec_effectiveLeverage cf n = geometric_sum cf n"
  by (simp add: spec_effectiveLeverage_def geometric_sum_def atLeast0LessThan)

lemma spec_totalStaked_geometric: "spec_totalStaked p cf n = p * geometric_sum cf n"
  by (simp add: spec_totalStaked_def geometric_sum_def atLeast0LessThan)

lemma sum_from_1: "(\<Sum>i = 1..n. cf ^ i) = cf * geometric_sum cf n" for cf :: rat
proof (induction n)
  case 0
  then show ?case by simp
next
  case (Suc n)
  have "(\<Sum>i = 1..Suc n. cf ^ i) = (\<Sum>i = 1..n. cf ^ i) + cf ^ Suc n" by simp
  then show ?case using Suc.IH by (simp add: algebra_simps)
qed

lemma spec_totalBorrowed_geometric: "spec_totalBorrowed p cf n = p * (cf * geometric_sum cf n)"
  by (simp only: spec_totalBorrowed_def sum_from_1)

lemma simulate_totalBorrowed:
  "LeverageSimulationResult.totalBorrowed (LeverageEngine_simulate this input) =
     fst (snd (leverage_loop (principal input) (collateralFactor input)
            (LeverageSimulationInput.loops input)))"
  by (simp add: LeverageEngine_simulate_def Let_def split: prod.splits)

text \<open>
  Claim C10, amended: for \<open>n = loops\<close> with \<open>1 \<le> n < 2\<^sup>5\<^sup>1\<close>, a collateral factor
  \<open>0 < cf < 1\<close> and a principal \<open>p\<close> with \<open>p * cf\<^sup>n\<^sup>+\<^sup>1 \<ge> 2\<^sup>-\<^sup>1\<^sup>0\<^sup>2\<^sup>1\<close> and
  \<open>p * (n + 1) \<le> 2\<^sup>1\<^sup>0\<^sup>2\<^sup>1\<close> (no operation underflows or overflows), the simulator returns
  finite numbers such that
  \<^item> \<open>totalStaked\<close> lies within the factors \<open>(1 - 2\<^sup>-\<^sup>5\<^sup>3)\<^sup>2\<^sup>n\<close> and \<open>(1 + 2\<^sup>-\<^sup>5\<^sup>3)\<^sup>2\<^sup>n\<close> of
    \<open>p\<close> times the sum of \<open>cf\<^sup>i\<close> for \<open>i\<close> from \<open>0\<close> to \<open>n - 1\<close>;
  \<^item> \<open>totalBorrowed\<close> lies within the same factors of \<open>p\<close> times the sum of \<open>cf\<^sup>i\<close> for
    \<open>i\<close> from \<open>1\<close> to \<open>n\<close>;
  \<^item> \<open>effectiveLeverage\<close> lies within the factors \<open>(1 - 2\<^sup>-\<^sup>5\<^sup>3)\<^sup>2\<^sup>n\<^sup>+\<^sup>1\<close> and
    \<open>(1 + 2\<^sup>-\<^sup>5\<^sup>3)\<^sup>2\<^sup>n\<^sup>+\<^sup>1\<close> of the sum of \<open>cf\<^sup>i\<close> for \<open>i\<close> from \<open>0\<close> to \<open>n - 1\<close>, so that
    \<open>effectiveLeverage * (1 - cf) < (1 + 2\<^sup>-\<^sup>5\<^sup>3)\<^sup>2\<^sup>n\<^sup>+\<^sup>1\<close>;
  \<^item> \<open>effectiveLeverage\<close> for \<open>n + 1\<close> loops is not below \<open>effectiveLeverage\<close> for \<open>n\<close>
    loops.
\<close>

theorem leverage_geometric:
  assumes "principal input = Fin p" "collateralFactor input = Fin f"
      "LeverageSimulationInput.loops input = n"
    and "principal input' = Fin p" "collateralFactor input' = Fin f"
      "LeverageSimulationInput.loops input' = Suc n"
    and "0 < f" "f < 1" "1 \<le> n" "n < 2 ^ 51"
    and "2 powi (- 1021) \<le> p * f ^ Suc n" "p * of_nat (Suc n) \<le> 2 powi 1021"
  shows "\<exists>ts tb el el'.
      LeverageSimulationResult.totalStaked (LeverageEngine_simulate this input) = Fin ts \<and>
      LeverageSimulationResult.totalBorrowed (LeverageEngine_simulate this input) = Fin tb \<and>
      LeverageSimulationResult.effectiveLeverage (LeverageEngine_simulate this input) = Fin el \<and>
      LeverageSimulationResult.effectiveLeverage (LeverageEngine_simulate this input') = Fin el' \<and>
      spec_totalStaked p f n * (1 - eps53) ^ (2 * n) \<le> ts \<and>
      ts \<le> spec_totalStaked p f n * (1 + eps53) ^ (2 * n) \<and>
      spec_totalBorrowed p f n * (1 - eps53) ^ (2 * n) \<le> tb \<and>
      tb \<le> spec_totalBorrowed p f n * (1 + eps53) ^ (2 * n) \<and>
      spec_effectiveLeverage f n * (1 - eps53) ^ (2 * n + 1) \<le> el \<and>
      el \<le> spec_effectiveLeverage f n * (1 + eps53) ^ (2 * n + 1) \<and>
      el * (1 - f) < (1 + eps53) ^ (2 * n + 1) \<and>
      el \<le> el'"
proof -
  define l where "l = 1 - eps53"
  define u where "u = 1 + eps53"
  define S where "S = geometric_sum f n"
  have l: "0 < l" "l \<le> 1" "0 \<le> l" using eps53_bounds by (simp_all add: l_def)
  have u: "1 \<le> u" "0 \<le> u" "0 < u" using eps53_bounds by (simp_all add: u_def)
  have f0: "0 \<le> f" using assms(7) by simp
  have fp: "0 < f ^ Suc n" using assms(7) by simp
  have p: "0 < p"
  proof (rule ccontr)
    assume "\<not> 0 < p"
    then have "p * f ^ Suc n \<le> 0" using fp by (simp add: mult_le_0_iff)
    then show False using assms(11) powi_pos [of "- 1021"] by linarith
  qed
  have n1: "Suc n \<le> 2 ^ 52" "2 * Suc n \<le> 2 ^ 52" "2 * n \<le> 2 ^ 52" "n \<le> 2 ^ 52"
    using assms(10) by simp_all
  have U1: "2 powi (- 1022) \<le> p * f ^ Suc n * (1 - eps53) ^ Suc n"
    using assms(7) n1(1) assms(11) by (rule no_underflow)
  have O1: "p * (geometric_sum f (Suc n) + f ^ Suc n) * (1 + eps53) ^ (2 * Suc n) \<le> 2 powi 1023"
    using assms(7,8) p _ n1(2) assms(12) by (rule no_overflow) simp
  have U0: "2 powi (- 1022) \<le> p * f ^ n * (1 - eps53) ^ n"
    using assms(7,8) p U1 by (rule underflow_mono)
  have O0: "p * (geometric_sum f n + f ^ n) * (1 + eps53) ^ (2 * n) \<le> 2 powi 1023"
    using assms(7) p O1 by (rule overflow_mono)
  obtain ts tb cd ds where st: "leverage_loop (Fin p) (Fin f) n = (Fin ts, Fin tb, Fin cd, ds)"
    and tsl: "p * S * l ^ (2 * n) \<le> ts" and tsu: "ts \<le> p * S * u ^ (2 * n)"
    and tbl: "p * (f * S) * l ^ (2 * n) \<le> tb" and tbu: "tb \<le> p * (f * S) * u ^ (2 * n)"
    using leverage_loop_bounds [OF assms(7,8) p U0 O0] unfolding l_def u_def S_def by blast
  obtain ts' tb' cd' ds' where
    st': "leverage_loop (Fin p) (Fin f) (Suc n) = (Fin ts', Fin tb', Fin cd', ds')"
    and ts'u: "ts' \<le> p * geometric_sum f (Suc n) * u ^ (2 * Suc n)"
    and ts'l: "p * geometric_sum f (Suc n) * l ^ (2 * Suc n) \<le> ts'"
    using leverage_loop_bounds [OF assms(7,8) p U1 O1] unfolding l_def u_def by blast
  have mono: "ts \<le> ts'"
    using assms(7,8) p U1 O1 by (rule leverage_loop_staked_mono) (simp_all add: st st')
  \<comment> \<open>the geometric sum is between 1 and the number of loops\<close>
  have S1: "1 \<le> S" unfolding S_def using f0 assms(9) by (rule geometric_sum_ge_1)
  have Sn: "S \<le> of_nat n" unfolding S_def using f0 assms(8) by (intro geometric_sum_le) simp_all
  have S'1: "1 \<le> geometric_sum f (Suc n)" using f0 by (intro geometric_sum_ge_1) simp_all
  have S'n: "geometric_sum f (Suc n) \<le> of_nat (Suc n)"
    using f0 assms(8) by (intro geometric_sum_le) simp_all
  have lh: "1 / 2 \<le> l ^ (2 * n)" unfolding l_def using n1(3) by (rule eps53_pow_ge_half)
  have uh: "u ^ (2 * n) \<le> 2" unfolding u_def using n1(3) by (rule eps53_pow_le_2)
  have lh': "1 / 2 \<le> l ^ (2 * Suc n)" unfolding l_def using n1(2) by (rule eps53_pow_ge_half)
  have uh': "u ^ (2 * Suc n) \<le> 2" unfolding u_def using n1(2) by (rule eps53_pow_le_2)
  \<comment> \<open>totalStaked / principal, for \<open>n\<close> loops\<close>
  define y where "y = ts / p"
  have yl: "S * l ^ (2 * n) \<le> y"
  proof -
    have "p * S * l ^ (2 * n) / p \<le> ts / p" using tsl p by (intro divide_right_mono) simp_all
    then show ?thesis using p by (simp add: y_def)
  qed
  have yu: "y \<le> S * u ^ (2 * n)"
  proof -
    have "ts / p \<le> p * S * u ^ (2 * n) / p" using tsu p by (intro divide_right_mono) simp_all
    then show ?thesis using p by (simp add: y_def)
  qed
  have "1 * (1 / 2) \<le> S * l ^ (2 * n)" using S1 lh by (intro mult_mono) simp_all
  then have yh: "1 / 2 \<le> y" using yl by linarith
  have ylo: "2 powi (- 1022) \<le> y" using yh powi_m1022_le_half by linarith
  have ypos: "0 < y" using yh by linarith
  have tspos: "0 < ts"
  proof (rule ccontr)
    assume "\<not> 0 < ts"
    then have "ts / p \<le> 0" using p by (simp add: divide_le_0_iff)
    then show False using ypos by (simp add: y_def)
  qed
  have "S * u ^ (2 * n) \<le> of_nat n * 2" using Sn uh u by (intro mult_mono) simp_all
  also have "\<dots> \<le> 2 ^ 53"
  proof -
    have "(of_nat n :: rat) \<le> of_nat (2 ^ 52)" using n1(4) by (simp only: of_nat_le_iff)
    then show ?thesis by simp
  qed
  finally have "y \<le> 2 ^ 53" using yu by linarith
  then have yup: "y \<le> 2 powi 1023" using pow53_le_powi by linarith
  have div: "js_div (Fin ts) (Fin p) = Fin (round64 y)"
    unfolding y_def by (rule js_div_pos [OF tspos p yup [unfolded y_def]])
  define el where "el = round64 y"
  have elu0: "el \<le> y * u" using round64_up [OF ylo] by (simp add: el_def u_def)
  have ell0: "y * l \<le> el" using round64_lo [OF ylo] by (simp add: el_def l_def)
  have elu: "el \<le> S * u ^ (2 * n + 1)"
  proof -
    have "y * u \<le> S * u ^ (2 * n) * u" using yu u by (intro mult_right_mono) simp_all
    moreover have "S * u ^ (2 * n) * u = S * u ^ (2 * n + 1)" by simp
    ultimately show ?thesis using elu0 by linarith
  qed
  have ell: "S * l ^ (2 * n + 1) \<le> el"
  proof -
    have "S * l ^ (2 * n) * l \<le> y * l" using yl l by (intro mult_right_mono) simp_all
    moreover have "S * l ^ (2 * n) * l = S * l ^ (2 * n + 1)" by simp
    ultimately show ?thesis using ell0 by linarith
  qed
  have below: "el * (1 - f) < u ^ (2 * n + 1)"
  proof -
    have "el * (1 - f) \<le> S * u ^ (2 * n + 1) * (1 - f)"
      using elu assms(8) by (intro mult_right_mono) simp_all
    also have "\<dots> = ((1 - f) * S) * u ^ (2 * n + 1)" by simp
    also have "\<dots> = (1 - f ^ n) * u ^ (2 * n + 1)"
      unfolding S_def by (simp only: geometric_sum_closed)
    also have "\<dots> < 1 * u ^ (2 * n + 1)"
      using assms(7) u by (intro mult_strict_right_mono) simp_all
    finally show ?thesis by simp
  qed
  \<comment> \<open>totalStaked / principal, for \<open>n + 1\<close> loops\<close>
  define y' where "y' = ts' / p"
  have yy': "y \<le> y'" unfolding y_def y'_def using mono p by (intro divide_right_mono) simp_all
  have ts'pos: "0 < ts'" using tspos mono by linarith
  have "ts' / p \<le> p * geometric_sum f (Suc n) * u ^ (2 * Suc n) / p"
    using ts'u p by (intro divide_right_mono) simp_all
  then have "y' \<le> geometric_sum f (Suc n) * u ^ (2 * Suc n)" using p by (simp add: y'_def)
  also have "\<dots> \<le> of_nat (Suc n) * 2" using S'n uh' u by (intro mult_mono) simp_all
  also have "\<dots> \<le> 2 ^ 53"
  proof -
    have "(of_nat (Suc n) :: rat) \<le> of_nat (2 ^ 52)" using n1(1) by (simp only: of_nat_le_iff)
    then show ?thesis by simp
  qed
  finally have "y' \<le> 2 ^ 53" .
  then have y'up: "y' \<le> 2 powi 1023" using pow53_le_powi by linarith
  have div': "js_div (Fin ts') (Fin p) = Fin (round64 y')"
    unfolding y'_def by (rule js_div_pos [OF ts'pos p y'up [unfolded y'_def]])
  have el_mono: "el \<le> round64 y'" unfolding el_def using yy' by (rule round64_mono)
  \<comment> \<open>the results\<close>
  have r1: "LeverageSimulationResult.totalStaked (LeverageEngine_simulate this input) = Fin ts"
    using st assms(1-3) by (simp add: simulate_totalStaked)
  have r2: "LeverageSimulationResult.totalBorrowed (LeverageEngine_simulate this input) = Fin tb"
    using st assms(1-3) by (simp add: simulate_totalBorrowed)
  have r3: "LeverageSimulationResult.effectiveLeverage (LeverageEngine_simulate this input) = Fin el"
    using st assms(1-3) div by (simp add: simulate_effectiveLeverage el_def)
  have r4: "LeverageSimulationResult.effectiveLeverage (LeverageEngine_simulate this input')
              = Fin (round64 y')"
    using st' assms(4-6) div' by (simp add: simulate_effectiveLeverage)
  have b1: "spec_totalStaked p f n * (1 - eps53) ^ (2 * n) \<le> ts"
    using tsl by (simp only: spec_totalStaked_geometric S_def l_def)
  have b2: "ts \<le> spec_totalStaked p f n * (1 + eps53) ^ (2 * n)"
    using tsu by (simp only: spec_totalStaked_geometric S_def u_def)
  have b3: "spec_totalBorrowed p f n * (1 - eps53) ^ (2 * n) \<le> tb"
    using tbl by (simp only: spec_totalBorrowed_geometric S_def l_def)
  have b4: "tb \<le> spec_totalBorrowed p f n * (1 + eps53) ^ (2 * n)"
    using tbu by (simp only: spec_totalBorrowed_geometric S_def u_def)
  have b5: "spec_effectiveLeverage f n * (1 - eps53) ^ (2 * n + 1) \<le> el"
    using ell by (simp only: spec_effectiveLeverage_geometric S_def l_def)
  have b6: "el \<le> spec_effectiveLeverage f n * (1 + eps53) ^ (2 * n + 1)"
    using elu by (simp only: spec_effectiveLeverage_geometric S_def u_def)
  have b7: "el * (1 - f) < (1 + eps53) ^ (2 * n + 1)" using below by (simp only: u_def)
  show ?thesis
    using r1 r2 r3 r4 b1 b2 b3 b4 b5 b6 b7 el_mono by blast
qed

text \<open>
  The amended claim at a principal of 1 and a collateral factor of \<open>0.1\<close>, for 16 and 17
  loops.
\<close>

theorem leverage_geometric_witness:
  "\<exists>ts tb el el'.
      LeverageSimulationResult.totalStaked (LeverageEngine_simulate () (demo_input 16)) = Fin ts \<and>
      LeverageSimulationResult.totalBorrowed (LeverageEngine_simulate () (demo_input 16)) = Fin tb \<and>
      LeverageSimulationResult.effectiveLeverage (LeverageEngine_simulate () (demo_input 16)) = Fin el \<and>
      LeverageSimulationResult.effectiveLeverage (LeverageEngine_simulate () (demo_input 17)) = Fin el' \<and>
      spec_totalStaked 1 (3602879701896397 / 36028797018963968) 16 * (1 - eps53) ^ (2 * 16) \<le> ts \<and>
      ts \<le> spec_totalStaked 1 (3602879701896397 / 36028797018963968) 16 * (1 + eps53) ^ (2 * 16) \<and>
      spec_totalBorrowed 1 (3602879701896397 / 36028797018963968) 16 * (1 - eps53) ^ (2 * 16) \<le> tb \<and>
      tb \<le> spec_totalBorrowed 1 (3602879701896397 / 36028797018963968) 16 * (1 + eps53) ^ (2 * 16) \<and>
      spec_effectiveLeverage (3602879701896397 / 36028797018963968) 16 * (1 - eps53) ^ (2 * 16 + 1) \<le> el \<and>
      el \<le> spec_effectiveLeverage (3602879701896397 / 36028797018963968) 16 * (1 + eps53) ^ (2 * 16 + 1) \<and>
      el * (1 - 3602879701896397 / 36028797018963968) < (1 + eps53) ^ (2 * 16 + 1) \<and>
      el \<le> el'"
proof (rule leverage_geometric)
  show "principal (demo_input 16) = Fin 1" by (simp add: demo_input_def)
  show "collateralFactor (demo_input 16) = Fin (3602879701896397 / 36028797018963968)"
    by (simp add: demo_input_def)
  show "LeverageSimulationInput.loops (demo_input 16) = 16" by (simp add: demo_input_def)
  show "principal (demo_input 17) = Fin 1" by (simp add: demo_input_def)
  show "collateralFactor (demo_input 17) = Fin (3602879701896397 / 36028797018963968)"
    by (simp add: demo_input_def)
  show "LeverageSimulationInput.loops (demo_input 17) = Suc 16" by (simp add: demo_input_def)
  show "(0::rat) < 3602879701896397 / 36028797018963968" by simp
  show "(3602879701896397 / 36028797018963968 :: rat) < 1" by simp
  show "(1::nat) \<le> 16" by simp
  show "(16::nat) < 2 ^ 51" by simp
  show "2 powi (- 1021) \<le> (1::rat) * (3602879701896397 / 36028797018963968) ^ Suc 16"
  proof -
    have "(2::rat) powi (- 1021) \<le> 2 powi (- 60)" by (rule powi_mono) simp
    moreover have "(2::rat) powi (- 60) = 1 / 2 ^ 60"
      by (simp add: power_int_minus inverse_eq_divide)
    moreover have "(1::rat) / 2 ^ 60 \<le> 1 * (3602879701896397 / 36028797018963968) ^ Suc 16"
      by (simp add: power_divide)
    ultimately show ?thesis by linarith
  qed
  show "(1::rat) * of_nat (Suc 16) \<le> 2 powi 1021"
  proof -
    have "(2::rat) powi 5 \<le> 2 powi 1021" by (rule powi_mono) simp
    moreover have "(1::rat) * of_nat (Suc 16) \<le> 2 powi 5" by simp
    ultimately show ?thesis by linarith
  qed
qed

end
